theory Spec2Isabelle
  imports Complex_Main "HOL-Library.Monad_Syntax"
begin

section \<open>The render engine of SHADERed: data model\<close>

text \<open>
  The model follows \<^verbatim>\<open>src/Objects/RenderEngine.cpp\<close>. Pointers are addresses
  (natural numbers). The engine holds three index-aligned vectors: \<^verbatim>\<open>m_items\<close>
  (pointers to pipeline items owned by the pipeline manager), \<^verbatim>\<open>m_vs\<close> and
  \<^verbatim>\<open>m_ps\<close> (pointers to the shader objects the engine allocates itself).
  Two items are the same item when their \<^verbatim>\<open>Data\<close> pointers are equal.

  A C++ execution with undefined behaviour (a vector indexed or edited out of range, a
  shader object used or deleted that is not live) has the value \<open>None\<close>.
\<close>

type_synonym ptr = nat

datatype ItemType = ShaderPass | Geometry | BlendState | DepthStencilState

record PipelineItem =
  Name :: string
  Type :: ItemType
  Data :: ptr

text \<open>The payload a top-level item's \<^verbatim>\<open>Data\<close> is cast to (\<^verbatim>\<open>pipe::ShaderPass\<close>).
  \<open>VSInputLayout\<close> holds the input elements; \<open>VSVariables\<close> and \<open>PSVariables\<close> say
  which constant-buffer slots are used; \<open>Items\<close> are the children.\<close>

record ShaderPass =
  VSPath :: string
  VSEntry :: string
  PSPath :: string
  PSEntry :: string
  VSInputLayout :: "nat list"
  VSVariables :: "nat \<Rightarrow> bool"
  PSVariables :: "nat \<Rightarrow> bool"
  Items :: "ptr list"

text \<open>What the engine reads and calls but does not own: the memory of the pipeline
  manager (items and payloads), the project-file reader, the shader compiler behind
  \<^verbatim>\<open>LoadFromMemory\<close> (a black box returning the success flag) and the constant
  \<^verbatim>\<open>CONSTANT_BUFFER_SLOTS\<close>, whose header is not part of the sources.\<close>

record Env =
  item_at :: "ptr \<Rightarrow> PipelineItem"
  pass_at :: "ptr \<Rightarrow> ShaderPass"
  LoadProjectFile :: "string \<Rightarrow> string"
  VS_LoadFromMemory :: "ptr option \<Rightarrow> string \<Rightarrow> string \<Rightarrow> bool"
  PS_LoadFromMemory :: "string \<Rightarrow> string \<Rightarrow> bool"
  CONSTANT_BUFFER_SLOTS :: nat

text \<open>A shader object (\<^verbatim>\<open>ml::VertexShader\<close>, \<^verbatim>\<open>ml::PixelShader\<close>): the input
  signature bound to it (null for a pixel shader), and what \<^verbatim>\<open>LoadFromMemory\<close>
  was last given and returned.\<close>

record ShaderObject =
  InputSignature :: "ptr option"
  Source :: string
  Entry :: string
  Compiled :: bool

datatype backend_call =
    New ptr
  | Delete ptr
  | Layout_Reset ptr
  | Load_File string
  | VS_Load ptr
  | PS_Load ptr

datatype msg_call =
    Add_Error string string
  | ClearGroup string

datatype gpu_call =
    RT_Create int int
  | RTView_Create
  | SetViewportSize int int
  | RT_Bind
  | RT_Clear
  | RT_ClearDepthStencil
  | RSSetViewports int int
  | SetInputLayout ptr
  | Slot_BindVS ptr nat
  | Slot_BindPS ptr nat
  | VS_Bind ptr
  | PS_Bind ptr
  | DefaultState_Bind
  | SetGeometryTransform ptr
  | VS_UpdateBuffers ptr
  | PS_UpdateBuffers ptr
  | SetTopology ptr
  | Geometry_Draw ptr
  | BlendState_Bind ptr
  | DepthStencilState_Bind ptr
  | Wnd_Bind

text \<open>The engine, its heap of shader objects (\<open>next_object\<close> is the next address
  \<^verbatim>\<open>new\<close> hands out) and the calls it has made, in order, on the shader backend,
  on the message stack and on the device.\<close>

record RenderEngine =
  m_items :: "ptr list"
  m_vs :: "ptr list"
  m_ps :: "ptr list"
  m_lastSize :: "int \<times> int"
  m_cacheTimer :: real
  objects :: "ptr \<rightharpoonup> ShaderObject"
  next_object :: ptr
  backend :: "backend_call list"
  msgs :: "msg_call list"
  gpu :: "gpu_call list"

section \<open>Vector operations\<close>

definition vec_at :: "'a list \<Rightarrow> nat \<Rightarrow> 'a option" where
  "vec_at xs i = (if i < length xs then Some (xs ! i) else None)"

definition vec_insert :: "nat \<Rightarrow> 'a \<Rightarrow> 'a list \<Rightarrow> 'a list option" where
  "vec_insert i x xs = (if i \<le> length xs then Some (take i xs @ x # drop i xs) else None)"

definition vec_erase :: "nat \<Rightarrow> 'a list \<Rightarrow> 'a list option" where
  "vec_erase i xs = (if i < length xs then Some (take i xs @ drop (Suc i) xs) else None)"

section \<open>The cache reconciler\<close>

text \<open>The inner search loops of \<^verbatim>\<open>m_cache\<close>: is there an element of \<open>xs\<close> with
  the same \<^verbatim>\<open>Data\<close> pointer as \<open>p\<close>?\<close>

fun found_in :: "Env \<Rightarrow> ptr list \<Rightarrow> ptr \<Rightarrow> bool" where
  "found_in env [] p = False"
| "found_in env (q # qs) p =
     (if Data (item_at env p) = Data (item_at env q) then True else found_in env qs p)"

text \<open>Lines 159 to 188: the item \<open>p\<close> was not found, it is cached at index \<open>i\<close>.\<close>

definition cache_item :: "Env \<Rightarrow> nat \<Rightarrow> ptr \<Rightarrow> RenderEngine \<Rightarrow> RenderEngine option" where
  "cache_item env i p s = do {
     items' \<leftarrow> vec_insert i p (m_items s);
     let d = Data (item_at env p);
     let data = pass_at env d;
     let vShader = next_object s;
     let pShader = Suc (next_object s);
     let sig = (if length (VSInputLayout data) > 0 then Some d else None);
     let vsContent = LoadProjectFile env (VSPath data);
     let psContent = LoadProjectFile env (PSPath data);
     let vsCompiled = VS_LoadFromMemory env sig vsContent (VSEntry data);
     let psCompiled = PS_LoadFromMemory env psContent (PSEntry data);
     vs' \<leftarrow> vec_insert i vShader (m_vs s);
     ps' \<leftarrow> vec_insert i pShader (m_ps s);
     Some (s\<lparr>m_items := items', m_vs := vs', m_ps := ps',
       objects := (objects s)
         (vShader \<mapsto> \<lparr>InputSignature = sig, Source = vsContent,
                       Entry = VSEntry data, Compiled = vsCompiled\<rparr>,
          pShader \<mapsto> \<lparr>InputSignature = None, Source = psContent,
                       Entry = PSEntry data, Compiled = psCompiled\<rparr>),
       next_object := Suc (Suc (next_object s)),
       backend := backend s @
         [New vShader, New pShader, Layout_Reset d,
          Load_File (VSPath data), Load_File (PSPath data), VS_Load vShader, PS_Load pShader],
       msgs := msgs s @
         [if \<not> vsCompiled \<or> \<not> psCompiled
          then Add_Error (Name (item_at env p)) ''Failed to compile the shader''
          else ClearGroup (Name (item_at env p))]\<rparr>)
   }"

text \<open>Lines 150 to 190: the loop that looks for added items, from index \<open>i\<close> on.\<close>

function cache_added :: "Env \<Rightarrow> ptr list \<Rightarrow> nat \<Rightarrow> RenderEngine \<Rightarrow> RenderEngine option" where
  "cache_added env items i s =
     (if i < length items then
        (if found_in env (m_items s) (items ! i) then cache_added env items (Suc i) s
         else (case cache_item env i (items ! i) s of
                 None \<Rightarrow> None
               | Some s' \<Rightarrow> cache_added env items (Suc i) s'))
      else Some s)"
  by pat_completeness auto
termination
  by (relation "measure (\<lambda>(env, items, i, s). length items - i)") auto

declare cache_added.simps [simp del]

text \<open>\<^verbatim>\<open>delete p\<close> on a shader object.\<close>

definition delete_object :: "ptr \<Rightarrow> RenderEngine \<Rightarrow> RenderEngine option" where
  "delete_object p s =
     (if objects s p = None then None
      else Some (s\<lparr>objects := (objects s)(p := None), backend := backend s @ [Delete p]\<rparr>))"

text \<open>Lines 202 to 207: the snapshot item at index \<open>i\<close> was not found in the external
  list.\<close>

definition uncache_item :: "nat \<Rightarrow> RenderEngine \<Rightarrow> RenderEngine option" where
  "uncache_item i s = do {
     v \<leftarrow> vec_at (m_vs s) i;
     s1 \<leftarrow> delete_object v s;
     p \<leftarrow> vec_at (m_ps s) i;
     s2 \<leftarrow> delete_object p s1;
     vs' \<leftarrow> vec_erase i (m_vs s);
     ps' \<leftarrow> vec_erase i (m_ps s);
     items' \<leftarrow> vec_erase i (m_items s);
     Some (s2\<lparr>m_items := items', m_vs := vs', m_ps := ps'\<rparr>)
   }"

lemma uncache_item_length:
  "uncache_item i s = Some s' \<Longrightarrow> Suc (length (m_items s')) = length (m_items s)"
  by (auto simp: uncache_item_def vec_erase_def vec_at_def delete_object_def
      split: bind_splits if_splits)

text \<open>Lines 193 to 209: the loop that looks for removed items, from index \<open>i\<close> on. The
  index advances after an erasure as well.\<close>

function cache_removed :: "Env \<Rightarrow> ptr list \<Rightarrow> nat \<Rightarrow> RenderEngine \<Rightarrow> RenderEngine option" where
  "cache_removed env items i s =
     (if i < length (m_items s) then
        (if found_in env items (m_items s ! i) then cache_removed env items (Suc i) s
         else (case uncache_item i s of
                 None \<Rightarrow> None
               | Some s' \<Rightarrow> cache_removed env items (Suc i) s'))
      else Some s)"
  by pat_completeness auto
termination
  by (relation "measure (\<lambda>(env, items, i, s). length (m_items s) - i)")
     (auto dest: uncache_item_length)

declare cache_removed.simps [simp del]

text \<open>Lines 219 to 230: the cache entry at index \<open>i\<close> is moved for the external
  position \<open>j\<close>.\<close>

definition move_item :: "ptr list \<Rightarrow> nat \<Rightarrow> nat \<Rightarrow> RenderEngine \<Rightarrow> RenderEngine option" where
  "move_item items i j s = do {
     let dest = (if j > i then j - 1 else j);
     items1 \<leftarrow> vec_erase i (m_items s);
     items' \<leftarrow> vec_insert dest (items ! j) items1;
     vsCopy \<leftarrow> vec_at (m_vs s) i;
     psCopy \<leftarrow> vec_at (m_ps s) i;
     vs1 \<leftarrow> vec_erase i (m_vs s);
     vs' \<leftarrow> vec_insert dest vsCopy vs1;
     ps1 \<leftarrow> vec_erase i (m_ps s);
     ps' \<leftarrow> vec_insert dest psCopy ps1;
     Some (s\<lparr>m_items := items', m_vs := vs', m_ps := ps'\<rparr>)
   }"

lemma move_item_length:
  "move_item items i j s = Some s' \<Longrightarrow> length (m_items s') = length (m_items s)"
  by (auto simp: move_item_def vec_erase_def vec_insert_def vec_at_def Let_def
      split: bind_splits if_splits)

text \<open>Lines 216 to 232: the inner loop over the external positions \<open>j\<close>. It reads
  \<^verbatim>\<open>m_items[i]\<close> anew at every \<open>j\<close> and goes on after a move.\<close>

function find_and_move :: "Env \<Rightarrow> ptr list \<Rightarrow> nat \<Rightarrow> nat \<Rightarrow> RenderEngine \<Rightarrow> RenderEngine option" where
  "find_and_move env items i j s =
     (if j < length items then
        (case vec_at (m_items s) i of
           None \<Rightarrow> None
         | Some q \<Rightarrow>
             if Data (item_at env (items ! j)) = Data (item_at env q) then
               (case move_item items i j s of
                  None \<Rightarrow> None
                | Some s' \<Rightarrow> find_and_move env items i (Suc j) s')
             else find_and_move env items i (Suc j) s)
      else Some s)"
  by pat_completeness auto
termination
  by (relation "measure (\<lambda>(env, items, i, j, s). length items - j)") auto

declare find_and_move.simps [simp del]

lemma find_and_move_length:
  "find_and_move env items i j s = Some s' \<Longrightarrow> length (m_items s') = length (m_items s)"
proof (induction env items i j s rule: find_and_move.induct)
  case (1 env items i j s)
  note unfold = find_and_move.simps [of env items i j s]
  show ?case
  proof (cases "j < length items")
    case False
    with "1.prems" show ?thesis by (simp add: unfold)
  next
    case True
    then obtain q where q: "vec_at (m_items s) i = Some q"
      using "1.prems" by (cases "vec_at (m_items s) i") (auto simp: unfold)
    show ?thesis
    proof (cases "Data (item_at env (items ! j)) = Data (item_at env q)")
      case same: True
      then obtain s1 where s1: "move_item items i j s = Some s1"
        using "1.prems" True q by (cases "move_item items i j s") (auto simp: unfold)
      have "find_and_move env items i (Suc j) s1 = Some s'"
        using "1.prems" True q same s1 by (simp add: unfold)
      then have "length (m_items s') = length (m_items s1)"
        using "1.IH"(1) True q same s1 by blast
      then show ?thesis using move_item_length [OF s1] by simp
    next
      case differ: False
      have "find_and_move env items i (Suc j) s = Some s'"
        using "1.prems" True q differ by (simp add: unfold)
      then show ?thesis using "1.IH"(2) True q differ by blast
    qed
  qed
qed

text \<open>Lines 212 to 234: the loop that looks for a changed order, from index \<open>i\<close> on.\<close>

function cache_moved :: "Env \<Rightarrow> ptr list \<Rightarrow> nat \<Rightarrow> RenderEngine \<Rightarrow> RenderEngine option" where
  "cache_moved env items i s =
     (if i < length (m_items s) then
        (case vec_at items i of
           None \<Rightarrow> None
         | Some p \<Rightarrow>
             if Data (item_at env p) \<noteq> Data (item_at env (m_items s ! i)) then
               (case find_and_move env items i 0 s of
                  None \<Rightarrow> None
                | Some s' \<Rightarrow> cache_moved env items (Suc i) s')
             else cache_moved env items (Suc i) s)
      else Some s)"
  by pat_completeness auto
termination
  by (relation "measure (\<lambda>(env, items, i, s). length (m_items s) - i)")
     (auto dest: find_and_move_length)

declare cache_moved.simps [simp del]

text \<open>The three loops in a row: a full scan.\<close>

definition full_scan :: "Env \<Rightarrow> ptr list \<Rightarrow> RenderEngine \<Rightarrow> RenderEngine option" where
  "full_scan env items s = do {
     s1 \<leftarrow> cache_added env items 0 s;
     s2 \<leftarrow> cache_removed env items 0 s1;
     cache_moved env items 0 s2
   }"

text \<open>\<^verbatim>\<open>RenderEngine::m_cache\<close>. \<open>items\<close> is the list the pipeline manager returns,
  \<open>now\<close> the time of the call; \<open>m_cacheTimer\<close> holds the time of the last restart.\<close>

definition m_cache :: "Env \<Rightarrow> ptr list \<Rightarrow> real \<Rightarrow> RenderEngine \<Rightarrow> RenderEngine option" where
  "m_cache env items now s =
     (if length (m_items s) = length items then
        (if now - m_cacheTimer s > 0.5 then full_scan env items (s\<lparr>m_cacheTimer := now\<rparr>)
         else Some s)
      else full_scan env items s)"

section \<open>Recompile and FlushCache\<close>

text \<open>Lines 105 to 123: the body of the loop of \<^verbatim>\<open>Recompile\<close> for a matching item at
  index \<open>i\<close>.\<close>

definition recompile_item :: "Env \<Rightarrow> nat \<Rightarrow> RenderEngine \<Rightarrow> RenderEngine option" where
  "recompile_item env i s = do {
     let item = item_at env (m_items s ! i);
     let shader = pass_at env (Data item);
     v \<leftarrow> vec_at (m_vs s) i;
     vobj \<leftarrow> objects s v;
     let bound = (length (VSInputLayout shader) > 0);
     let sig = (if bound then Some (Data item) else None);
     let vsContent = LoadProjectFile env (VSPath shader);
     let psContent = LoadProjectFile env (PSPath shader);
     let vsCompiled = VS_LoadFromMemory env sig vsContent (VSEntry shader);
     p \<leftarrow> vec_at (m_ps s) i;
     pobj \<leftarrow> objects s p;
     let psCompiled = PS_LoadFromMemory env psContent (PSEntry shader);
     Some (s\<lparr>objects := (objects s)
         (v \<mapsto> \<lparr>InputSignature = sig, Source = vsContent,
                 Entry = VSEntry shader, Compiled = vsCompiled\<rparr>,
          p \<mapsto> pobj\<lparr>Source := psContent, Entry := PSEntry shader, Compiled := psCompiled\<rparr>),
       backend := backend s @ (if bound then [Layout_Reset (Data item)] else []) @
         [Load_File (VSPath shader), Load_File (PSPath shader), VS_Load v, PS_Load p],
       msgs := msgs s @
         [if \<not> vsCompiled \<or> \<not> psCompiled
          then Add_Error (Name item) ''Failed to compile the shader(s)''
          else ClearGroup (Name item)]\<rparr>)
   }"

function Recompile_from :: "Env \<Rightarrow> string \<Rightarrow> nat \<Rightarrow> RenderEngine \<Rightarrow> RenderEngine option" where
  "Recompile_from env name i s =
     (if i < length (m_items s) then
        (if Name (item_at env (m_items s ! i)) = name then
           (case recompile_item env i s of
              None \<Rightarrow> None
            | Some s' \<Rightarrow> Recompile_from env name (Suc i) s')
         else Recompile_from env name (Suc i) s)
      else Some s)"
  by pat_completeness auto
termination
  by (relation "measure (\<lambda>(env, name, i, s). length (m_items s) - i)")
     (auto simp: recompile_item_def Let_def split: bind_splits)

declare Recompile_from.simps [simp del]

definition Recompile :: "Env \<Rightarrow> string \<Rightarrow> RenderEngine \<Rightarrow> RenderEngine option" where
  "Recompile env name s = Recompile_from env name 0 s"

text \<open>The two loops of \<^verbatim>\<open>FlushCache\<close> delete the elements of a vector in order.\<close>

fun delete_all :: "ptr list \<Rightarrow> RenderEngine \<Rightarrow> RenderEngine option" where
  "delete_all [] s = Some s"
| "delete_all (p # ps) s =
     (case delete_object p s of None \<Rightarrow> None | Some s' \<Rightarrow> delete_all ps s')"

definition FlushCache :: "RenderEngine \<Rightarrow> RenderEngine option" where
  "FlushCache s = do {
     s1 \<leftarrow> delete_all (m_vs s) s;
     s2 \<leftarrow> delete_all (m_ps s) s1;
     Some (s2\<lparr>m_vs := [], m_ps := [], m_items := []\<rparr>)
   }"

section \<open>The frame renderer\<close>

text \<open>Lines 75 to 92: one child \<open>item\<close> of the pass whose payload is at \<open>d\<close>.\<close>

definition render_item :: "Env \<Rightarrow> ptr \<Rightarrow> ptr \<Rightarrow> gpu_call list" where
  "render_item env d item =
     (let it = item_at env item in
      if Type it = Geometry then
        [SetGeometryTransform (Data it), VS_UpdateBuffers d, PS_UpdateBuffers d,
         SetTopology (Data it), Geometry_Draw (Data it)]
      else if Type it = BlendState then [BlendState_Bind (Data it)]
      else if Type it = DepthStencilState then [DepthStencilState_Bind (Data it)]
      else [])"

fun render_items :: "Env \<Rightarrow> ptr \<Rightarrow> ptr list \<Rightarrow> gpu_call list" where
  "render_items env d [] = []"
| "render_items env d (item # rest) = render_item env d item @ render_items env d rest"

text \<open>Lines 58 to 63: the used slots are bound, vertex stage first.\<close>

definition bind_slots :: "Env \<Rightarrow> ptr \<Rightarrow> gpu_call list" where
  "bind_slots env d =
     concat (map (\<lambda>j. (if VSVariables (pass_at env d) j then [Slot_BindVS d j] else []) @
                      (if PSVariables (pass_at env d) j then [Slot_BindPS d j] else []))
       [0 ..< CONSTANT_BUFFER_SLOTS env])"

text \<open>Lines 52 to 93: the pass at index \<open>i\<close>.\<close>

definition render_pass :: "Env \<Rightarrow> nat \<Rightarrow> RenderEngine \<Rightarrow> gpu_call list option" where
  "render_pass env i s = do {
     let d = Data (item_at env (m_items s ! i));
     v \<leftarrow> vec_at (m_vs s) i;
     vobj \<leftarrow> objects s v;
     p \<leftarrow> vec_at (m_ps s) i;
     pobj \<leftarrow> objects s p;
     Some ([SetInputLayout d] @ bind_slots env d @ [VS_Bind v, PS_Bind p, DefaultState_Bind] @
           render_items env d (Items (pass_at env d)))
   }"

function render_passes :: "Env \<Rightarrow> nat \<Rightarrow> RenderEngine \<Rightarrow> gpu_call list option" where
  "render_passes env i s =
     (if i < length (m_items s) then
        (case render_pass env i s of
           None \<Rightarrow> None
         | Some calls \<Rightarrow> map_option (\<lambda>rest. calls @ rest) (render_passes env (Suc i) s))
      else Some [])"
  by pat_completeness auto
termination
  by (relation "measure (\<lambda>(env, i, s). length (m_items s) - i)") auto

declare render_passes.simps [simp del]

text \<open>Lines 24 to 29: the render texture follows the size.\<close>

definition sync_render_target :: "int \<Rightarrow> int \<Rightarrow> RenderEngine \<Rightarrow> RenderEngine" where
  "sync_render_target width height s =
     (if fst (m_lastSize s) \<noteq> width \<or> snd (m_lastSize s) \<noteq> height then
        s\<lparr>m_lastSize := (width, height),
          gpu := gpu s @ [RT_Create width height, RTView_Create]\<rparr>
      else s)"

text \<open>\<^verbatim>\<open>RenderEngine::Render\<close>.\<close>

definition Render :: "Env \<Rightarrow> ptr list \<Rightarrow> real \<Rightarrow> int \<Rightarrow> int \<Rightarrow> RenderEngine \<Rightarrow> RenderEngine option" where
  "Render env items now width height s = do {
     let s1 = sync_render_target width height s;
     let s2 = s1\<lparr>gpu := gpu s1 @ [SetViewportSize width height]\<rparr>;
     s3 \<leftarrow> m_cache env items now s2;
     let s4 = s3\<lparr>gpu := gpu s3 @
                [RT_Bind, RT_Clear, RT_ClearDepthStencil, RSSetViewports width height]\<rparr>;
     calls \<leftarrow> render_passes env 0 s4;
     Some (s4\<lparr>gpu := gpu s4 @ calls @ [Wnd_Bind]\<rparr>)
   }"

text \<open>The constructor: empty vectors, last size \<open>(0, 0)\<close>, the timer started at \<open>t0\<close>.\<close>

definition RenderEngine_new :: "real \<Rightarrow> RenderEngine" where
  "RenderEngine_new t0 =
     \<lparr>m_items = [], m_vs = [], m_ps = [], m_lastSize = (0, 0), m_cacheTimer = t0,
      objects = Map.empty, next_object = 0, backend = [], msgs = [], gpu = []\<rparr>"

section \<open>Notions used in the statements\<close>

text \<open>The results of the two \<^verbatim>\<open>LoadFromMemory\<close> calls of a compile attempt on an
  item: the arguments are those of lines 115 to 118 and 177 to 180.\<close>

definition vs_compiles :: "Env \<Rightarrow> PipelineItem \<Rightarrow> bool" where
  "vs_compiles env item =
     (let data = pass_at env (Data item) in
      VS_LoadFromMemory env (if length (VSInputLayout data) > 0 then Some (Data item) else None)
        (LoadProjectFile env (VSPath data)) (VSEntry data))"

definition ps_compiles :: "Env \<Rightarrow> PipelineItem \<Rightarrow> bool" where
  "ps_compiles env item =
     (let data = pass_at env (Data item) in
      PS_LoadFromMemory env (LoadProjectFile env (PSPath data)) (PSEntry data))"

text \<open>The calls that create the render texture or its view.\<close>

fun recreates :: "gpu_call \<Rightarrow> bool" where
  "recreates (RT_Create w h) = True"
| "recreates RTView_Create = True"
| "recreates c = False"

text \<open>An environment to run the model in. The items at the addresses 1 to 4 are passes
  named A, B, C, D with payloads at 11 to 14; the vertex shader of B does not compile; A has
  an input element and the children 5 (geometry), 6 (blend state), 7 (a pass, not drawn)
  and 8 (depth-stencil state).\<close>

definition example_env :: Env where
  "example_env =
     \<lparr>item_at = (\<lambda>p.
        \<lparr>Name = (if p = 1 then ''A'' else if p = 2 then ''B'' else if p = 3 then ''C'' else ''D''),
         Type = (if p = 5 then Geometry else if p = 6 then BlendState
                 else if p = 8 then DepthStencilState else ShaderPass),
         Data = 10 + p\<rparr>),
      pass_at = (\<lambda>d.
        \<lparr>VSPath = (if d = 12 then ''bad.hlsl'' else ''vs.hlsl''), VSEntry = ''main'',
         PSPath = ''ps.hlsl'', PSEntry = ''main'',
         VSInputLayout = (if d = 11 then [0] else []),
         VSVariables = (\<lambda>j. j = 0), PSVariables = (\<lambda>j. False),
         Items = (if d = 11 then [5, 6, 7, 8] else [])\<rparr>),
      LoadProjectFile = (\<lambda>f. f),
      VS_LoadFromMemory = (\<lambda>sig src entry. src \<noteq> ''bad.hlsl''),
      PS_LoadFromMemory = (\<lambda>src entry. True),
      CONSTANT_BUFFER_SLOTS = 2\<rparr>"

text \<open>An engine that has cached the items \<open>ps\<close>: the shader objects of the item at
  index \<open>k\<close> are at the addresses \<open>2 * k\<close> and \<open>2 * k + 1\<close>.\<close>

definition example_engine :: "ptr list \<Rightarrow> RenderEngine" where
  "example_engine ps =
     \<lparr>m_items = ps,
      m_vs = map (\<lambda>k. 2 * k) [0 ..< length ps],
      m_ps = map (\<lambda>k. 2 * k + 1) [0 ..< length ps],
      m_lastSize = (0, 0), m_cacheTimer = 0,
      objects = (\<lambda>p. if p < 2 * length ps
                      then Some \<lparr>InputSignature = None, Source = ''old'', Entry = ''main'',
                                 Compiled = True\<rparr>
                      else None),
      next_object = 2 * length ps, backend = [], msgs = [], gpu = []\<rparr>"

text \<open>The invariants of the cache: the three vectors have the same length and no two
  snapshot items have the same \<^verbatim>\<open>Data\<close> pointer.\<close>

definition cache_aligned :: "RenderEngine \<Rightarrow> bool" where
  "cache_aligned s = (length (m_vs s) = length (m_items s) \<and> length (m_ps s) = length (m_items s))"

definition identities :: "Env \<Rightarrow> ptr list \<Rightarrow> ptr list" where
  "identities env xs = map (\<lambda>p. Data (item_at env p)) xs"

definition cache_inv :: "Env \<Rightarrow> RenderEngine \<Rightarrow> bool" where
  "cache_inv env s = (cache_aligned s \<and> distinct (identities env (m_items s)))"

text \<open>The engine owns its shader objects: the pointers in the two vectors are distinct,
  point to live objects and were handed out by \<^verbatim>\<open>new\<close>.\<close>

definition objects_ok :: "RenderEngine \<Rightarrow> bool" where
  "objects_ok s =
     (distinct (m_vs s @ m_ps s) \<and>
      (\<forall>p \<in> set (m_vs s @ m_ps s). objects s p \<noteq> None \<and> p < next_object s))"

text \<open>A vertex or pixel shader object as a compile attempt on \<open>item\<close> leaves it.\<close>

definition vs_loaded :: "Env \<Rightarrow> PipelineItem \<Rightarrow> ShaderObject \<Rightarrow> bool" where
  "vs_loaded env item obj =
     (let data = pass_at env (Data item) in
      InputSignature obj = (if length (VSInputLayout data) > 0 then Some (Data item) else None) \<and>
      Source obj = LoadProjectFile env (VSPath data) \<and>
      Entry obj = VSEntry data \<and>
      Compiled obj = vs_compiles env item)"

definition ps_loaded :: "Env \<Rightarrow> PipelineItem \<Rightarrow> ShaderObject \<Rightarrow> bool" where
  "ps_loaded env item obj =
     (let data = pass_at env (Data item) in
      Source obj = LoadProjectFile env (PSPath data) \<and>
      Entry obj = PSEntry data \<and>
      Compiled obj = ps_compiles env item)"

fun group_of :: "msg_call \<Rightarrow> string" where
  "group_of (Add_Error g t) = g"
| "group_of (ClearGroup g) = g"

text \<open>What \<^verbatim>\<open>Recompile\<close> does to the cache entry at index \<open>k\<close>, and the state of the
  loop of \<^verbatim>\<open>Recompile\<close> that starts at index \<open>i\<close>.\<close>

definition entry_recompiled :: "Env \<Rightarrow> RenderEngine \<Rightarrow> RenderEngine \<Rightarrow> nat \<Rightarrow> bool" where
  "entry_recompiled env s s' k =
     (\<exists>v p. objects s' (m_vs s ! k) = Some v \<and> vs_loaded env (item_at env (m_items s ! k)) v \<and>
            objects s' (m_ps s ! k) = Some p \<and> ps_loaded env (item_at env (m_items s ! k)) p)"

definition entry_untouched :: "RenderEngine \<Rightarrow> RenderEngine \<Rightarrow> nat \<Rightarrow> bool" where
  "entry_untouched s s' k =
     (objects s' (m_vs s ! k) = objects s (m_vs s ! k) \<and>
      objects s' (m_ps s ! k) = objects s (m_ps s ! k))"

definition recompiled_from :: "Env \<Rightarrow> string \<Rightarrow> nat \<Rightarrow> RenderEngine \<Rightarrow> RenderEngine \<Rightarrow> bool" where
  "recompiled_from env name i s s' =
     (m_items s' = m_items s \<and> m_vs s' = m_vs s \<and> m_ps s' = m_ps s \<and>
      next_object s' = next_object s \<and>
      (\<forall>k < length (m_items s).
         (i \<le> k \<and> Name (item_at env (m_items s ! k)) = name \<longrightarrow> entry_recompiled env s s' k) \<and>
         (\<not> (i \<le> k \<and> Name (item_at env (m_items s ! k)) = name) \<longrightarrow> entry_untouched s s' k)))"

text \<open>The reconciler touches neither the device calls nor the stored size nor, once the
  scan runs, the timer.\<close>

definition same_frame :: "RenderEngine \<Rightarrow> RenderEngine \<Rightarrow> bool" where
  "same_frame s t = (gpu t = gpu s \<and> m_lastSize t = m_lastSize s \<and> m_cacheTimer t = m_cacheTimer s)"

text \<open>The state of the loop over the external list that starts at index \<open>i\<close>: the
  entry of a new item \<open>p\<close> at index \<open>k\<close> holds two objects allocated and loaded during
  the scan; the objects that existed before are as they were and still in the vectors, in
  their order; the vectors are unchanged below index \<open>i\<close>.\<close>

definition entry_new :: "Env \<Rightarrow> RenderEngine \<Rightarrow> RenderEngine \<Rightarrow> ptr \<Rightarrow> nat \<Rightarrow> bool" where
  "entry_new env s s' p k =
     (k < length (m_items s') \<and> m_items s' ! k = p \<and>
      next_object s \<le> m_vs s' ! k \<and> next_object s \<le> m_ps s' ! k \<and>
      (\<exists>v q. objects s' (m_vs s' ! k) = Some v \<and> vs_loaded env (item_at env p) v \<and>
             objects s' (m_ps s' ! k) = Some q \<and> ps_loaded env (item_at env p) q))"

definition olds_kept :: "RenderEngine \<Rightarrow> RenderEngine \<Rightarrow> bool" where
  "olds_kept s s' =
     (next_object s \<le> next_object s' \<and>
      (\<forall>q < next_object s. objects s' q = objects s q) \<and>
      (\<forall>b \<le> next_object s.
         filter (\<lambda>q. q < b) (m_vs s') = filter (\<lambda>q. q < b) (m_vs s) \<and>
         filter (\<lambda>q. q < b) (m_ps s') = filter (\<lambda>q. q < b) (m_ps s)))"

definition prefix_kept :: "nat \<Rightarrow> RenderEngine \<Rightarrow> RenderEngine \<Rightarrow> bool" where
  "prefix_kept i s s' =
     (take i (m_items s') = take i (m_items s) \<and> take i (m_vs s') = take i (m_vs s) \<and>
      take i (m_ps s') = take i (m_ps s))"

definition added_from :: "Env \<Rightarrow> ptr list \<Rightarrow> nat \<Rightarrow> RenderEngine \<Rightarrow> RenderEngine \<Rightarrow> bool" where
  "added_from env items i s s' =
     (cache_aligned s' \<and> prefix_kept i s s' \<and> olds_kept s s' \<and>
      (\<forall>k. i \<le> k \<and> k < length items \<and> \<not> found_in env (m_items s) (items ! k) \<longrightarrow>
           entry_new env s s' (items ! k) k))"

section \<open>Reasoning about the loops\<close>

subsection \<open>Unfolding the loops by one iteration\<close>

lemma cache_added_done: "\<not> i < length items \<Longrightarrow> cache_added env items i s = Some s"
  by (simp add: cache_added.simps [of env items i s])

lemma cache_added_found:
  "i < length items \<Longrightarrow> found_in env (m_items s) (items ! i) \<Longrightarrow>
   cache_added env items i s = cache_added env items (Suc i) s"
  by (simp add: cache_added.simps [of env items i s])

lemma cache_added_new:
  "i < length items \<Longrightarrow> \<not> found_in env (m_items s) (items ! i) \<Longrightarrow>
   cache_added env items i s =
     Option.bind (cache_item env i (items ! i) s) (cache_added env items (Suc i))"
  by (simp add: cache_added.simps [of env items i s] split: option.splits)

lemma cache_removed_done:
  "\<not> i < length (m_items s) \<Longrightarrow> cache_removed env items i s = Some s"
  by (simp add: cache_removed.simps [of env items i s])

lemma cache_removed_found:
  "i < length (m_items s) \<Longrightarrow> found_in env items (m_items s ! i) \<Longrightarrow>
   cache_removed env items i s = cache_removed env items (Suc i) s"
  by (simp add: cache_removed.simps [of env items i s])

lemma cache_removed_gone:
  "i < length (m_items s) \<Longrightarrow> \<not> found_in env items (m_items s ! i) \<Longrightarrow>
   cache_removed env items i s =
     Option.bind (uncache_item i s) (cache_removed env items (Suc i))"
  by (simp add: cache_removed.simps [of env items i s] split: option.splits)

lemma find_and_move_done:
  "\<not> j < length items \<Longrightarrow> find_and_move env items i j s = Some s"
  by (simp add: find_and_move.simps [of env items i j s])

lemma find_and_move_range:
  "j < length items \<Longrightarrow> \<not> i < length (m_items s) \<Longrightarrow> find_and_move env items i j s = None"
  by (simp add: find_and_move.simps [of env items i j s] vec_at_def)

lemma find_and_move_same:
  "j < length items \<Longrightarrow> i < length (m_items s) \<Longrightarrow>
   Data (item_at env (items ! j)) = Data (item_at env (m_items s ! i)) \<Longrightarrow>
   find_and_move env items i j s =
     Option.bind (move_item items i j s) (find_and_move env items i (Suc j))"
  by (simp add: find_and_move.simps [of env items i j s] vec_at_def split: option.splits)

lemma find_and_move_other:
  "j < length items \<Longrightarrow> i < length (m_items s) \<Longrightarrow>
   Data (item_at env (items ! j)) \<noteq> Data (item_at env (m_items s ! i)) \<Longrightarrow>
   find_and_move env items i j s = find_and_move env items i (Suc j) s"
  by (simp add: find_and_move.simps [of env items i j s] vec_at_def)

lemma cache_moved_done:
  "\<not> i < length (m_items s) \<Longrightarrow> cache_moved env items i s = Some s"
  by (simp add: cache_moved.simps [of env items i s])

lemma cache_moved_range:
  "i < length (m_items s) \<Longrightarrow> \<not> i < length items \<Longrightarrow> cache_moved env items i s = None"
  by (simp add: cache_moved.simps [of env items i s] vec_at_def)

lemma cache_moved_match:
  "i < length (m_items s) \<Longrightarrow> i < length items \<Longrightarrow>
   Data (item_at env (items ! i)) = Data (item_at env (m_items s ! i)) \<Longrightarrow>
   cache_moved env items i s = cache_moved env items (Suc i) s"
  by (simp add: cache_moved.simps [of env items i s] vec_at_def)

lemma cache_moved_mismatch:
  "i < length (m_items s) \<Longrightarrow> i < length items \<Longrightarrow>
   Data (item_at env (items ! i)) \<noteq> Data (item_at env (m_items s ! i)) \<Longrightarrow>
   cache_moved env items i s =
     Option.bind (find_and_move env items i 0 s) (cache_moved env items (Suc i))"
  by (simp add: cache_moved.simps [of env items i s] vec_at_def split: option.splits)

subsection \<open>What every iteration keeps, the loop keeps\<close>

lemma cache_added_rule:
  assumes run: "cache_added env items i s = Some s'"
    and init: "P s"
    and step: "\<And>i s s'. P s \<Longrightarrow> i < length items \<Longrightarrow> \<not> found_in env (m_items s) (items ! i) \<Longrightarrow>
                   cache_item env i (items ! i) s = Some s' \<Longrightarrow> P s'"
  shows "P s'"
  using run init step
proof (induction env items i s rule: cache_added.induct)
  case (1 env items i s)
  note step = "1.prems"(3)
  consider (finished) "\<not> i < length items"
    | (found) "i < length items" "found_in env (m_items s) (items ! i)"
    | (new) "i < length items" "\<not> found_in env (m_items s) (items ! i)"
    by blast
  then show ?case
  proof cases
    case finished
    with "1.prems" show ?thesis by (simp add: cache_added_done)
  next
    case found
    with "1.prems" have "cache_added env items (Suc i) s = Some s'"
      by (simp add: cache_added_found)
    then show ?thesis using "1.IH"(1) found "1.prems"(2) step by blast
  next
    case new
    with "1.prems" obtain s1 where s1: "cache_item env i (items ! i) s = Some s1"
      and rest: "cache_added env items (Suc i) s1 = Some s'"
      by (auto simp: cache_added_new bind_eq_Some_conv)
    have "P s1" using step "1.prems"(2) new s1 by blast
    then show ?thesis using "1.IH"(2) new s1 rest step by blast
  qed
qed

lemma cache_removed_rule:
  assumes run: "cache_removed env items i s = Some s'"
    and init: "P s"
    and step: "\<And>i s s'. P s \<Longrightarrow> i < length (m_items s) \<Longrightarrow>
                   \<not> found_in env items (m_items s ! i) \<Longrightarrow>
                   uncache_item i s = Some s' \<Longrightarrow> P s'"
  shows "P s'"
  using run init step
proof (induction env items i s rule: cache_removed.induct)
  case (1 env items i s)
  note step = "1.prems"(3)
  consider (finished) "\<not> i < length (m_items s)"
    | (found) "i < length (m_items s)" "found_in env items (m_items s ! i)"
    | (gone) "i < length (m_items s)" "\<not> found_in env items (m_items s ! i)"
    by blast
  then show ?case
  proof cases
    case finished
    with "1.prems" show ?thesis by (simp add: cache_removed_done)
  next
    case found
    with "1.prems" have "cache_removed env items (Suc i) s = Some s'"
      by (simp add: cache_removed_found)
    then show ?thesis using "1.IH"(1) found "1.prems"(2) step by blast
  next
    case gone
    with "1.prems" obtain s1 where s1: "uncache_item i s = Some s1"
      and rest: "cache_removed env items (Suc i) s1 = Some s'"
      by (auto simp: cache_removed_gone bind_eq_Some_conv)
    have "P s1" using step "1.prems"(2) gone s1 by blast
    then show ?thesis using "1.IH"(2) gone s1 rest step by blast
  qed
qed

lemma find_and_move_rule:
  assumes run: "find_and_move env items i j s = Some s'"
    and init: "P s"
    and step: "\<And>j s s'. P s \<Longrightarrow> j < length items \<Longrightarrow> i < length (m_items s) \<Longrightarrow>
                   Data (item_at env (items ! j)) = Data (item_at env (m_items s ! i)) \<Longrightarrow>
                   move_item items i j s = Some s' \<Longrightarrow> P s'"
  shows "P s'"
  using run init step
proof (induction env items i j s rule: find_and_move.induct)
  case (1 env items i j s)
  note step = "1.prems"(3)
  consider (finished) "\<not> j < length items"
    | (range) "j < length items" "\<not> i < length (m_items s)"
    | (same) "j < length items" "i < length (m_items s)"
        "Data (item_at env (items ! j)) = Data (item_at env (m_items s ! i))"
    | (other) "j < length items" "i < length (m_items s)"
        "Data (item_at env (items ! j)) \<noteq> Data (item_at env (m_items s ! i))"
    by blast
  then show ?case
  proof cases
    case finished
    with "1.prems" show ?thesis by (simp add: find_and_move_done)
  next
    case range
    with "1.prems" show ?thesis by (simp add: find_and_move_range)
  next
    case same
    have q: "vec_at (m_items s) i = Some (m_items s ! i)"
      using same by (simp add: vec_at_def)
    from same "1.prems" obtain s1 where s1: "move_item items i j s = Some s1"
      and rest: "find_and_move env items i (Suc j) s1 = Some s'"
      by (auto simp: find_and_move_same bind_eq_Some_conv)
    have "P s1" using step "1.prems"(2) same s1 by blast
    then show ?thesis using "1.IH"(1) [OF same(1) q same(3) s1 rest] step by blast
  next
    case other
    have q: "vec_at (m_items s) i = Some (m_items s ! i)"
      using other by (simp add: vec_at_def)
    from other "1.prems" have rest: "find_and_move env items i (Suc j) s = Some s'"
      by (simp add: find_and_move_other)
    show ?thesis using "1.IH"(2) [OF other(1) q other(3) rest "1.prems"(2)] step by blast
  qed
qed

lemma cache_moved_rule:
  assumes run: "cache_moved env items i s = Some s'"
    and init: "P s"
    and step: "\<And>i s s'. P s \<Longrightarrow> i < length (m_items s) \<Longrightarrow> i < length items \<Longrightarrow>
                 find_and_move env items i 0 s = Some s' \<Longrightarrow> P s'"
  shows "P s'"
  using run init step
proof (induction env items i s rule: cache_moved.induct)
  case (1 env items i s)
  note step = "1.prems"(3)
  consider (finished) "\<not> i < length (m_items s)"
    | (range) "i < length (m_items s)" "\<not> i < length items"
    | (match) "i < length (m_items s)" "i < length items"
        "Data (item_at env (items ! i)) = Data (item_at env (m_items s ! i))"
    | (mismatch) "i < length (m_items s)" "i < length items"
        "Data (item_at env (items ! i)) \<noteq> Data (item_at env (m_items s ! i))"
    by blast
  then show ?case
  proof cases
    case finished
    with "1.prems" show ?thesis by (simp add: cache_moved_done)
  next
    case range
    with "1.prems" show ?thesis by (simp add: cache_moved_range)
  next
    case match
    have p: "vec_at items i = Some (items ! i)"
      using match by (simp add: vec_at_def)
    from match "1.prems" have rest: "cache_moved env items (Suc i) s = Some s'"
      by (simp add: cache_moved_match)
    have "\<not> Data (item_at env (items ! i)) \<noteq> Data (item_at env (m_items s ! i))"
      using match by simp
    from "1.IH"(2) [OF match(1) p this rest "1.prems"(2)] step show ?thesis by blast
  next
    case mismatch
    have p: "vec_at items i = Some (items ! i)"
      using mismatch by (simp add: vec_at_def)
    from mismatch "1.prems" obtain s1 where s1: "find_and_move env items i 0 s = Some s1"
      and rest: "cache_moved env items (Suc i) s1 = Some s'"
      by (auto simp: cache_moved_mismatch bind_eq_Some_conv)
    have "P s1" using step "1.prems"(2) mismatch s1 by blast
    then show ?thesis using "1.IH"(1) [OF mismatch(1) p mismatch(3) s1 rest] step by blast
  qed
qed

lemma Recompile_from_done:
  "\<not> i < length (m_items s) \<Longrightarrow> Recompile_from env name i s = Some s"
  by (simp add: Recompile_from.simps [of env name i s])

lemma Recompile_from_match:
  "i < length (m_items s) \<Longrightarrow> Name (item_at env (m_items s ! i)) = name \<Longrightarrow>
   Recompile_from env name i s =
     Option.bind (recompile_item env i s) (Recompile_from env name (Suc i))"
  by (simp add: Recompile_from.simps [of env name i s] split: option.splits)

lemma Recompile_from_other:
  "i < length (m_items s) \<Longrightarrow> Name (item_at env (m_items s ! i)) \<noteq> name \<Longrightarrow>
   Recompile_from env name i s = Recompile_from env name (Suc i) s"
  by (simp add: Recompile_from.simps [of env name i s])

lemma Recompile_from_rule:
  assumes run: "Recompile_from env name i s = Some s'"
    and init: "P s"
    and step: "\<And>i s s'. P s \<Longrightarrow> i < length (m_items s) \<Longrightarrow>
                 Name (item_at env (m_items s ! i)) = name \<Longrightarrow>
                 recompile_item env i s = Some s' \<Longrightarrow> P s'"
  shows "P s'"
  using run init step
proof (induction env name i s rule: Recompile_from.induct)
  case (1 env name i s)
  note step = "1.prems"(3)
  consider (finished) "\<not> i < length (m_items s)"
    | (match) "i < length (m_items s)" "Name (item_at env (m_items s ! i)) = name"
    | (other) "i < length (m_items s)" "Name (item_at env (m_items s ! i)) \<noteq> name"
    by blast
  then show ?case
  proof cases
    case finished
    with "1.prems" show ?thesis by (simp add: Recompile_from_done)
  next
    case match
    with "1.prems" obtain s1 where s1: "recompile_item env i s = Some s1"
      and rest: "Recompile_from env name (Suc i) s1 = Some s'"
      by (auto simp: Recompile_from_match bind_eq_Some_conv)
    have "P s1" using step "1.prems"(2) match s1 by blast
    then show ?thesis using "1.IH"(1) [OF match s1 rest] step by blast
  next
    case other
    with "1.prems" have rest: "Recompile_from env name (Suc i) s = Some s'"
      by (simp add: Recompile_from_other)
    show ?thesis using "1.IH"(2) [OF other rest "1.prems"(2)] step by blast
  qed
qed

section \<open>The frame renderer: children and the render target\<close>

lemma render_items_append:
  "render_items env d (xs @ ys) = render_items env d xs @ render_items env d ys"
  by (induction xs) simp_all

text \<open>
  Claim C10. A child of a pass whose type is none of Geometry, BlendState and
  DepthStencilState makes the renderer issue no call at all (no draw, no state binding, no
  update of system variables or constant buffers), and the children before and after it
  are rendered as if it were not there.
\<close>

theorem render_skips_other_children:
  assumes "Type (item_at env item) \<noteq> Geometry"
    and "Type (item_at env item) \<noteq> BlendState"
    and "Type (item_at env item) \<noteq> DepthStencilState"
  shows "render_item env d item = [] \<and>
         render_items env d (before @ item # after) =
           render_items env d before @ render_items env d after"
  using assms by (simp add: render_item_def render_items_append Let_def)

theorem render_skips_other_children_witness:
  "render_item example_env 11 7 = [] \<and>
   render_items example_env 11 ([5, 6] @ 7 # [8]) =
     render_items example_env 11 [5, 6] @ render_items example_env 11 [8]"
  by (rule render_skips_other_children) (simp_all add: example_env_def)

section \<open>Diagnostics of a compile attempt\<close>

lemma cache_item_msgs:
  "cache_item env i p s = Some s' \<Longrightarrow>
   msgs s' = msgs s @
     [if vs_compiles env (item_at env p) \<and> ps_compiles env (item_at env p)
      then ClearGroup (Name (item_at env p))
      else Add_Error (Name (item_at env p)) ''Failed to compile the shader'']"
  unfolding cache_item_def vs_compiles_def ps_compiles_def
  by (clarsimp simp: bind_eq_Some_conv Let_def)

lemma recompile_item_msgs:
  "recompile_item env i s = Some s' \<Longrightarrow>
   msgs s' = msgs s @
     [if vs_compiles env (item_at env (m_items s ! i)) \<and>
         ps_compiles env (item_at env (m_items s ! i))
      then ClearGroup (Name (item_at env (m_items s ! i)))
      else Add_Error (Name (item_at env (m_items s ! i))) ''Failed to compile the shader(s)'']"
  unfolding recompile_item_def vs_compiles_def ps_compiles_def
  by (clarsimp simp: bind_eq_Some_conv Let_def)


text \<open>
  Claim C6. A compile attempt, on insertion (\<open>cache_item\<close>) or on recompilation
  (\<open>recompile_item\<close>), makes exactly one call on the message stack, for the group of the
  item's name: it adds an error when the vertex or the pixel stage does not compile, and
  clears the group when both compile. So an error is added if and only if a stage fails,
  and no group of another name is added to or cleared.
\<close>

theorem compile_attempt_diagnostics:
  "(cache_item env i p s = Some s' \<longrightarrow>
      msgs s' = msgs s @
        [if \<not> vs_compiles env (item_at env p) \<or> \<not> ps_compiles env (item_at env p)
         then Add_Error (Name (item_at env p)) ''Failed to compile the shader''
         else ClearGroup (Name (item_at env p))]) \<and>
   (recompile_item env i s = Some s' \<longrightarrow>
      msgs s' = msgs s @
        [if \<not> vs_compiles env (item_at env (m_items s ! i)) \<or>
            \<not> ps_compiles env (item_at env (m_items s ! i))
         then Add_Error (Name (item_at env (m_items s ! i))) ''Failed to compile the shader(s)''
         else ClearGroup (Name (item_at env (m_items s ! i)))])"
  by (auto dest: cache_item_msgs recompile_item_msgs)

theorem compile_attempt_diagnostics_witness:
  "(\<exists>s'. cache_item example_env 1 2 (example_engine [1]) = Some s' \<and>
         msgs s' = [Add_Error ''B'' ''Failed to compile the shader'']) \<and>
   (\<exists>s'. recompile_item example_env 0 (example_engine [1]) = Some s' \<and>
         msgs s' = [ClearGroup ''A''])"
proof -
  obtain s1 where a: "cache_item example_env 1 2 (example_engine [1]) = Some s1"
    by (simp add: cache_item_def vec_insert_def example_engine_def Let_def)
  obtain s2 where b: "recompile_item example_env 0 (example_engine [1]) = Some s2"
    by (simp add: recompile_item_def vec_at_def example_engine_def Let_def)
  from compile_attempt_diagnostics [of example_env 1 2 "example_engine [1]" s1] a
  have "msgs s1 = [Add_Error ''B'' ''Failed to compile the shader'']"
    by (simp add: vs_compiles_def ps_compiles_def example_env_def example_engine_def)
  moreover from compile_attempt_diagnostics [of example_env 0 _ "example_engine [1]" s2] b
  have "msgs s2 = [ClearGroup ''A'']"
    by (simp add: vs_compiles_def ps_compiles_def example_env_def example_engine_def)
  ultimately show ?thesis using a b by simp
qed

section \<open>The render target\<close>

lemma cache_item_frame: "cache_item env i p s = Some s' \<Longrightarrow> same_frame s s'"
  unfolding cache_item_def same_frame_def by (clarsimp simp: bind_eq_Some_conv Let_def)

lemma uncache_item_frame: "uncache_item i s = Some s' \<Longrightarrow> same_frame s s'"
  unfolding uncache_item_def delete_object_def same_frame_def
  by (clarsimp simp: bind_eq_Some_conv split: if_splits)

lemma move_item_frame: "move_item items i j s = Some s' \<Longrightarrow> same_frame s s'"
  unfolding move_item_def same_frame_def by (clarsimp simp: bind_eq_Some_conv Let_def)

lemma same_frame_trans: "same_frame s t \<Longrightarrow> same_frame t u \<Longrightarrow> same_frame s u"
  by (simp add: same_frame_def)

lemma find_and_move_frame:
  assumes "find_and_move env items i j s = Some s'"
  shows "same_frame s s'"
  by (rule find_and_move_rule [OF assms, where P = "same_frame s"])
     (auto simp: same_frame_def dest!: move_item_frame)

lemma full_scan_frame:
  assumes "full_scan env items s = Some s'"
  shows "same_frame s s'"
proof -
  from assms obtain s1 s2 where a: "cache_added env items 0 s = Some s1"
    and r: "cache_removed env items 0 s1 = Some s2"
    and m: "cache_moved env items 0 s2 = Some s'"
    by (auto simp: full_scan_def bind_eq_Some_conv)
  have "same_frame s s1"
    by (rule cache_added_rule [OF a, where P = "same_frame s"])
       (auto simp: same_frame_def dest!: cache_item_frame)
  then have "same_frame s s2"
    by (rule cache_removed_rule [OF r, where P = "same_frame s"])
       (auto simp: same_frame_def dest!: uncache_item_frame)
  then show "same_frame s s'"
    by (rule cache_moved_rule [OF m, where P = "same_frame s"])
       (auto simp: same_frame_def dest!: find_and_move_frame)
qed

lemma m_cache_frame:
  "m_cache env items now s = Some s' \<Longrightarrow> gpu s' = gpu s \<and> m_lastSize s' = m_lastSize s"
  by (auto simp: m_cache_def same_frame_def split: if_splits dest!: full_scan_frame)

lemma render_items_no_recreate: "filter recreates (render_items env d xs) = []"
  by (induction xs) (simp_all add: render_item_def Let_def)

lemma bind_slots_no_recreate: "filter recreates (bind_slots env d) = []"
  by (simp add: bind_slots_def filter_concat comp_def)

lemma render_pass_no_recreate:
  "render_pass env i s = Some calls \<Longrightarrow> filter recreates calls = []"
  unfolding render_pass_def
  by (clarsimp simp: bind_eq_Some_conv Let_def render_items_no_recreate bind_slots_no_recreate)

lemma render_passes_no_recreate:
  "render_passes env i s = Some calls \<Longrightarrow> filter recreates calls = []"
proof (induction env i s arbitrary: calls rule: render_passes.induct)
  case (1 env i s)
  show ?case
  proof (cases "i < length (m_items s)")
    case False
    with "1.prems" show ?thesis by (simp add: render_passes.simps [of env i s])
  next
    case True
    with "1.prems" obtain c rest where c: "render_pass env i s = Some c"
      and rest: "render_passes env (Suc i) s = Some rest" and calls: "calls = c @ rest"
      by (auto simp: render_passes.simps [of env i s] split: option.splits)
    from "1.IH" [OF True c rest] render_pass_no_recreate [OF c] calls
    show ?thesis by simp
  qed
qed

lemma Render_recreates:
  assumes "Render env items now w h s = Some s'"
  shows "m_lastSize s' = (w, h) \<and>
         filter recreates (gpu s') = filter recreates (gpu s) @
           (if m_lastSize s = (w, h) then [] else [RT_Create w h, RTView_Create])"
proof -
  let ?s1 = "sync_render_target w h s"
  let ?s2 = "?s1\<lparr>gpu := gpu ?s1 @ [SetViewportSize w h]\<rparr>"
  from assms obtain s3 calls where c: "m_cache env items now ?s2 = Some s3"
    and p: "render_passes env 0
              (s3\<lparr>gpu := gpu s3 @ [RT_Bind, RT_Clear, RT_ClearDepthStencil, RSSetViewports w h]\<rparr>)
            = Some calls"
    and s': "s' = s3\<lparr>gpu := gpu s3 @ [RT_Bind, RT_Clear, RT_ClearDepthStencil, RSSetViewports w h]
                     @ calls @ [Wnd_Bind]\<rparr>"
    by (auto simp: Render_def Let_def bind_eq_Some_conv)
  have f: "gpu s3 = gpu ?s2" "m_lastSize s3 = m_lastSize ?s2"
    using m_cache_frame [OF c] by simp_all
  have size: "m_lastSize ?s1 = (w, h)"
    by (cases "m_lastSize s") (auto simp: sync_render_target_def)
  have g: "filter recreates (gpu ?s1) = filter recreates (gpu s) @
             (if m_lastSize s = (w, h) then [] else [RT_Create w h, RTView_Create])"
    by (cases "m_lastSize s") (auto simp: sync_render_target_def)
  show ?thesis
    using f size g render_passes_no_recreate [OF p] by (simp add: s')
qed

text \<open>
  Claim C7. When \<^verbatim>\<open>Render\<close> has returned for a width and a height, the next call with
  the same width and height does not take the recreation branch: the stored size stays and
  no texture or view is created. A call whose width or height differs from the stored size
  creates the texture and the view exactly once and stores the new size. The step of
  \<^verbatim>\<open>Render\<close> that does this (lines 24 to 29) always ends: it stores the size and creates
  the texture and the view once if the size differs, and not at all if it is the same.
\<close>

theorem render_target_recreation:
  "(Render env items now w h s = Some s1 \<and> Render env items' now' w h s1 = Some s2 \<longrightarrow>
      sync_render_target w h s1 = s1 \<and> m_lastSize s2 = m_lastSize s1 \<and>
      filter recreates (gpu s2) = filter recreates (gpu s1)) \<and>
   (m_lastSize s \<noteq> (w, h) \<and> Render env items now w h s = Some s1 \<longrightarrow>
      m_lastSize s1 = (w, h) \<and>
      filter recreates (gpu s1) = filter recreates (gpu s) @ [RT_Create w h, RTView_Create]) \<and>
   m_lastSize (sync_render_target w h s) = (w, h) \<and>
   filter recreates (gpu (sync_render_target w h s)) = filter recreates (gpu s) @
     (if m_lastSize s = (w, h) then [] else [RT_Create w h, RTView_Create])"
proof (intro conjI impI)
  show "m_lastSize (sync_render_target w h s) = (w, h)"
    by (cases "m_lastSize s") (auto simp: sync_render_target_def)
  show "filter recreates (gpu (sync_render_target w h s)) = filter recreates (gpu s) @
     (if m_lastSize s = (w, h) then [] else [RT_Create w h, RTView_Create])"
    by (cases "m_lastSize s") (auto simp: sync_render_target_def)
next
  assume a: "Render env items now w h s = Some s1 \<and> Render env items' now' w h s1 = Some s2"
  then have 1: "m_lastSize s1 = (w, h)" using Render_recreates by blast
  then show "sync_render_target w h s1 = s1" by (simp add: sync_render_target_def)
  from a 1 Render_recreates [of env items' now' w h s1 s2]
  show "m_lastSize s2 = m_lastSize s1" "filter recreates (gpu s2) = filter recreates (gpu s1)"
    by simp_all
next
  assume a: "m_lastSize s \<noteq> (w, h) \<and> Render env items now w h s = Some s1"
  with Render_recreates [of env items now w h s s1]
  show "m_lastSize s1 = (w, h)"
    "filter recreates (gpu s1) = filter recreates (gpu s) @ [RT_Create w h, RTView_Create]"
    by simp_all
qed

theorem render_target_recreation_witness:
  "\<exists>s1 s2. Render example_env [1] 0 640 480 (RenderEngine_new 0) = Some s1 \<and>
     Render example_env [1] 1 640 480 s1 = Some s2 \<and>
     m_lastSize (RenderEngine_new 0) \<noteq> (640, 480) \<and>
     m_lastSize s1 = (640, 480) \<and> m_lastSize s2 = (640, 480) \<and>
     filter recreates (gpu s1) = [RT_Create 640 480, RTView_Create] \<and>
     filter recreates (gpu s2) = [RT_Create 640 480, RTView_Create]"
proof -
  have "\<not> Option.is_none (Render example_env [1] 0 640 480 (RenderEngine_new 0))"
    by code_simp
  then obtain s1 where a: "Render example_env [1] 0 640 480 (RenderEngine_new 0) = Some s1"
    by (auto simp: Option.is_none_def)
  have "\<not> Option.is_none (Render example_env [1] 1 640 480
          (the (Render example_env [1] 0 640 480 (RenderEngine_new 0))))"
    by code_simp
  then obtain s2 where b: "Render example_env [1] 1 640 480 s1 = Some s2"
    using a by (auto simp: Option.is_none_def)
  have c: "m_lastSize (RenderEngine_new 0) \<noteq> (640, 480)"
    by (simp add: RenderEngine_new_def)
  have d: "gpu (RenderEngine_new 0) = []"
    by (simp add: RenderEngine_new_def)
  from render_target_recreation [of example_env "[1]" 0 640 480 "RenderEngine_new 0" s1 "[1]" 1 s2]
    a b c d
  show ?thesis by simp
qed

section \<open>The throttle of the reconciler\<close>

text \<open>
  Claim C4, as stated, at the threshold itself. The snapshot and the external list have
  the same length and exactly 0.5 time units have passed since the timer was restarted:
  \<^verbatim>\<open>m_cache\<close> returns the engine as it is, the timer is not restarted and no scan runs (a
  scan would replace the item 1 by the item 2).
\<close>

theorem m_cache_threshold_counterexample:
  "length (m_items (example_engine [1])) = length [2::nat] \<and>
   1 / 2 - m_cacheTimer (example_engine [1]) = 0.5 \<and>
   map_option m_items (m_cache example_env [2] (1 / 2) (example_engine [1])) = Some [1] \<and>
   map_option m_cacheTimer (m_cache example_env [2] (1 / 2) (example_engine [1])) = Some 0 \<and>
   map_option m_items (full_scan example_env [2] ((example_engine [1])\<lparr>m_cacheTimer := 1 / 2\<rparr>))
     = Some [2]"
  by code_simp

text \<open>
  Claim C4, amended. When the external list is as long as the snapshot and at most 0.5
  time units have passed since the timer was restarted, \<^verbatim>\<open>m_cache\<close> returns the engine
  unchanged: no cache mutation, no compilation, no call at all. When more than 0.5 time
  units have passed, the timer is restarted and the full scan runs.
\<close>

theorem m_cache_throttle:
  assumes "length (m_items s) = length items"
  shows "(now - m_cacheTimer s \<le> 0.5 \<longrightarrow> m_cache env items now s = Some s) \<and>
         (now - m_cacheTimer s > 0.5 \<longrightarrow>
            m_cache env items now s = full_scan env items (s\<lparr>m_cacheTimer := now\<rparr>) \<and>
            (\<forall>s'. m_cache env items now s = Some s' \<longrightarrow> m_cacheTimer s' = now))"
  using assms by (auto simp: m_cache_def same_frame_def dest!: full_scan_frame)

theorem m_cache_throttle_witness:
  "m_cache example_env [2] 0.5 (example_engine [1]) = Some (example_engine [1]) \<and>
   m_cache example_env [2] 0.75 (example_engine [1]) =
     full_scan example_env [2] ((example_engine [1])\<lparr>m_cacheTimer := 0.75\<rparr>)"
proof -
  have len: "length (m_items (example_engine [1])) = length [2::nat]"
    by (simp add: example_engine_def)
  have t: "m_cacheTimer (example_engine [1]) = 0"
    by (simp add: example_engine_def)
  from m_cache_throttle [OF len, where now = "0.5" and env = example_env]
    m_cache_throttle [OF len, where now = "0.75" and env = example_env] t
  show ?thesis by simp
qed

section \<open>Removals and moves on concrete inputs\<close>

text \<open>
  Claim C2 at a failing input. The snapshot holds the items 1, 2, 3 and the external list
  only the item 3, so the adjacent items 1 and 2 are to be removed. The removal loop erases
  the entry of item 1 at index 0 and goes on at index 1, where item 3 now is: the entry of
  item 2 stays in the three vectors and its shader objects (2 and 3) are not deleted. The
  loop over the order then indexes the external list out of range.
\<close>

theorem adjacent_removals_skip:
  "map_option m_items (cache_removed example_env [3] 0 (example_engine [1, 2, 3])) = Some [2, 3] \<and>
   map_option m_vs (cache_removed example_env [3] 0 (example_engine [1, 2, 3])) = Some [2, 4] \<and>
   map_option m_ps (cache_removed example_env [3] 0 (example_engine [1, 2, 3])) = Some [3, 5] \<and>
   map_option backend (cache_removed example_env [3] 0 (example_engine [1, 2, 3]))
     = Some [Delete 0, Delete 1] \<and>
   \<not> found_in example_env [3] 2 \<and>
   Option.is_none (m_cache example_env [3] 0 (example_engine [1, 2, 3]))"
  by code_simp

text \<open>
  Claim C3 at a failing input. The snapshot holds the items 1, 2, 3, 4 and the external
  list is the reordering 3, 1, 4, 2; the throttle window has passed. The scan moves entries
  (each item together with its two shader objects, without any call on the shader backend)
  but ends with the order 1, 3, 4, 2, which is not the external order. A second scan, one
  time unit later, reaches the external order.
\<close>

theorem reorder_misses_order:
  "length (m_items (example_engine [1, 2, 3, 4])) = length [3, 1, 4, 2::nat] \<and>
   map_option m_items (m_cache example_env [3, 1, 4, 2] 1 (example_engine [1, 2, 3, 4]))
     = Some [1, 3, 4, 2] \<and>
   map_option m_vs (m_cache example_env [3, 1, 4, 2] 1 (example_engine [1, 2, 3, 4]))
     = Some [0, 4, 6, 2] \<and>
   map_option m_ps (m_cache example_env [3, 1, 4, 2] 1 (example_engine [1, 2, 3, 4]))
     = Some [1, 5, 7, 3] \<and>
   map_option backend (m_cache example_env [3, 1, 4, 2] 1 (example_engine [1, 2, 3, 4])) = Some [] \<and>
   map_option m_items
     (Option.bind (m_cache example_env [3, 1, 4, 2] 1 (example_engine [1, 2, 3, 4]))
        (m_cache example_env [3, 1, 4, 2] 2))
     = Some [3, 1, 4, 2]"
  by code_simp

section \<open>FlushCache\<close>

lemma delete_all_result:
  assumes "distinct ps" and "\<forall>p \<in> set ps. objects s p \<noteq> None"
  shows "delete_all ps s =
    Some (s\<lparr>objects := (\<lambda>q. if q \<in> set ps then None else objects s q),
            backend := backend s @ map Delete ps\<rparr>)"
  using assms
proof (induction ps arbitrary: s)
  case Nil
  then show ?case by simp
next
  case (Cons p ps)
  let ?s1 = "s\<lparr>objects := (objects s)(p := None), backend := backend s @ [Delete p]\<rparr>"
  have d: "delete_object p s = Some ?s1"
    using Cons.prems by (simp add: delete_object_def)
  have "delete_all ps ?s1 =
    Some (?s1\<lparr>objects := (\<lambda>q. if q \<in> set ps then None else objects ?s1 q),
              backend := backend ?s1 @ map Delete ps\<rparr>)"
    using Cons.prems by (intro Cons.IH) auto
  moreover have "(\<lambda>q. if q \<in> set ps then None else objects ?s1 q) =
                 (\<lambda>q. if q \<in> set (p # ps) then None else objects s q)"
    by (auto simp: fun_eq_iff)
  ultimately show ?case using d by simp
qed

lemma FlushCache_result:
  assumes "objects_ok s"
  shows "FlushCache s =
    Some (s\<lparr>objects := (\<lambda>q. if q \<in> set (m_vs s @ m_ps s) then None else objects s q),
            backend := backend s @ map Delete (m_vs s) @ map Delete (m_ps s),
            m_vs := [], m_ps := [], m_items := []\<rparr>)"
proof -
  let ?s1 = "s\<lparr>objects := (\<lambda>q. if q \<in> set (m_vs s) then None else objects s q),
               backend := backend s @ map Delete (m_vs s)\<rparr>"
  have 1: "delete_all (m_vs s) s = Some ?s1"
    using assms by (intro delete_all_result) (auto simp: objects_ok_def)
  have 2: "delete_all (m_ps s) ?s1 =
    Some (?s1\<lparr>objects := (\<lambda>q. if q \<in> set (m_ps s) then None else objects ?s1 q),
              backend := backend ?s1 @ map Delete (m_ps s)\<rparr>)"
    using assms by (intro delete_all_result) (auto simp: objects_ok_def)
  have 3: "(\<lambda>q. if q \<in> set (m_ps s) then None else objects ?s1 q) =
           (\<lambda>q. if q \<in> set (m_vs s @ m_ps s) then None else objects s q)"
    by (auto simp: fun_eq_iff)
  show ?thesis
    using 1 2 3 by (simp add: FlushCache_def)
qed

lemma FlushCache_empty:
  assumes "m_items s = []" "m_vs s = []" "m_ps s = []"
  shows "FlushCache s = Some s"
  using assms by (simp add: FlushCache_def)

text \<open>
  Claim C9. On an engine that owns its shader objects, \<^verbatim>\<open>FlushCache\<close> deletes every
  object of the vertex vector, then every object of the pixel vector, and leaves the three
  vectors empty; flushing the result again changes nothing. On an already empty cache it
  deletes nothing and returns the engine as it is.
\<close>

theorem FlushCache_clears:
  "(objects_ok s \<longrightarrow>
      (\<exists>s'. FlushCache s = Some s' \<and>
            m_items s' = [] \<and> m_vs s' = [] \<and> m_ps s' = [] \<and>
            (\<forall>p \<in> set (m_vs s @ m_ps s). objects s' p = None) \<and>
            backend s' = backend s @ map Delete (m_vs s) @ map Delete (m_ps s) \<and>
            FlushCache s' = Some s')) \<and>
   (m_items s = [] \<and> m_vs s = [] \<and> m_ps s = [] \<longrightarrow> FlushCache s = Some s)"
proof (intro conjI impI)
  assume ok: "objects_ok s"
  let ?s' = "s\<lparr>objects := (\<lambda>q. if q \<in> set (m_vs s @ m_ps s) then None else objects s q),
               backend := backend s @ map Delete (m_vs s) @ map Delete (m_ps s),
               m_vs := [], m_ps := [], m_items := []\<rparr>"
  have "FlushCache s = Some ?s'" by (rule FlushCache_result [OF ok])
  moreover have "FlushCache ?s' = Some ?s'" by (rule FlushCache_empty) simp_all
  ultimately show "\<exists>s'. FlushCache s = Some s' \<and>
            m_items s' = [] \<and> m_vs s' = [] \<and> m_ps s' = [] \<and>
            (\<forall>p \<in> set (m_vs s @ m_ps s). objects s' p = None) \<and>
            backend s' = backend s @ map Delete (m_vs s) @ map Delete (m_ps s) \<and>
            FlushCache s' = Some s'"
    by simp
next
  assume "m_items s = [] \<and> m_vs s = [] \<and> m_ps s = []"
  then show "FlushCache s = Some s" by (simp add: FlushCache_empty)
qed

theorem FlushCache_clears_witness:
  "objects_ok (example_engine [1, 2]) \<and>
   (\<exists>s'. FlushCache (example_engine [1, 2]) = Some s' \<and>
      m_items s' = [] \<and> m_vs s' = [] \<and> m_ps s' = [] \<and>
      objects s' 0 = None \<and> objects s' 1 = None \<and> objects s' 2 = None \<and> objects s' 3 = None \<and>
      backend s' = [Delete 0, Delete 2, Delete 1, Delete 3] \<and>
      FlushCache s' = Some s') \<and>
   FlushCache (RenderEngine_new 0) = Some (RenderEngine_new 0)"
proof -
  have ok: "objects_ok (example_engine [1, 2])"
    by (simp add: objects_ok_def example_engine_def upt_conv_Cons)
  have v: "m_vs (example_engine [1, 2]) = [0, 2]" "m_ps (example_engine [1, 2]) = [1, 3]"
    "backend (example_engine [1, 2]) = []"
    by (simp_all add: example_engine_def upt_conv_Cons)
  have e: "m_items (RenderEngine_new 0) = [] \<and> m_vs (RenderEngine_new 0) = [] \<and>
           m_ps (RenderEngine_new 0) = []"
    by (simp add: RenderEngine_new_def)
  from FlushCache_clears [of "example_engine [1, 2]"] FlushCache_clears [of "RenderEngine_new 0"]
    ok e
  show ?thesis unfolding v by auto
qed

section \<open>The invariants of the cache\<close>

lemma found_in_iff:
  "found_in env xs p \<longleftrightarrow> Data (item_at env p) \<in> set (identities env xs)"
  by (induction xs) (auto simp: identities_def)

lemma distinct_insert_mid:
  "distinct (as @ x # bs) \<longleftrightarrow> distinct (as @ bs) \<and> x \<notin> set (as @ bs)"
  by auto

lemma distinct_insert_at:
  "distinct (take i xs @ x # drop i xs) \<longleftrightarrow> distinct xs \<and> x \<notin> set xs"
  using distinct_insert_mid [of "take i xs" x "drop i xs"]
  by (simp only: append_take_drop_id)

lemma distinct_erase_at:
  assumes "distinct xs"
  shows "distinct (take i xs @ drop (Suc i) xs)"
proof -
  have "set (take i xs) \<inter> set (drop (Suc i) xs) = {}"
    using assms by (intro set_take_disj_set_drop_if_distinct) simp_all
  with assms show ?thesis by simp
qed

lemma nth_not_in_erase_at:
  assumes "distinct xs" "i < length xs"
  shows "xs ! i \<notin> set (take i xs @ drop (Suc i) xs)"
proof -
  have "distinct (take i xs @ xs ! i # drop (Suc i) xs)"
    using assms by (simp add: id_take_nth_drop [symmetric])
  then show ?thesis by auto
qed

lemma set_erase_at_subset: "set (take i xs @ drop (Suc i) xs) \<subseteq> set xs"
  by (auto dest: in_set_takeD in_set_dropD)

lemma cache_item_inv:
  assumes "cache_inv env s" "\<not> found_in env (m_items s) p" "cache_item env i p s = Some s'"
  shows "cache_inv env s'"
proof -
  from assms(3) have i: "i \<le> length (m_items s)" "i \<le> length (m_vs s)" "i \<le> length (m_ps s)"
    and items: "m_items s' = take i (m_items s) @ p # drop i (m_items s)"
    and vs: "length (m_vs s') = Suc (length (m_vs s))"
    and ps: "length (m_ps s') = Suc (length (m_ps s))"
    unfolding cache_item_def
    by (auto simp: bind_eq_Some_conv Let_def vec_insert_def split: if_splits)
  have "identities env (m_items s') =
        take i (identities env (m_items s)) @ Data (item_at env p) # drop i (identities env (m_items s))"
    by (simp add: items identities_def take_map drop_map)
  moreover have "distinct (identities env (m_items s))"
    "Data (item_at env p) \<notin> set (identities env (m_items s))"
    using assms(1,2) by (simp_all add: found_in_iff cache_inv_def)
  ultimately have "distinct (identities env (m_items s'))"
    by (simp add: distinct_insert_at del: distinct_append)
  then show ?thesis
    using assms(1) i vs ps by (simp add: cache_inv_def cache_aligned_def items)
qed

lemma uncache_item_inv:
  assumes "cache_inv env s" "uncache_item i s = Some s'"
  shows "cache_inv env s'"
proof -
  from assms(2) have i: "i < length (m_items s)" "i < length (m_vs s)" "i < length (m_ps s)"
    and items: "m_items s' = take i (m_items s) @ drop (Suc i) (m_items s)"
    and vs: "m_vs s' = take i (m_vs s) @ drop (Suc i) (m_vs s)"
    and ps: "m_ps s' = take i (m_ps s) @ drop (Suc i) (m_ps s)"
    unfolding uncache_item_def delete_object_def
    by (auto simp: bind_eq_Some_conv vec_erase_def vec_at_def split: if_splits)
  have "identities env (m_items s') =
        take i (identities env (m_items s)) @ drop (Suc i) (identities env (m_items s))"
    by (simp add: items identities_def take_map drop_map)
  then have "distinct (identities env (m_items s'))"
    using assms(1) by (simp add: distinct_erase_at cache_inv_def del: distinct_append)
  then show ?thesis
    using assms(1) i by (simp add: cache_inv_def cache_aligned_def items vs ps)
qed

lemma move_item_inv:
  assumes "cache_inv env s" "i < length (m_items s)"
    and same: "Data (item_at env (items ! j)) = Data (item_at env (m_items s ! i))"
    and move: "move_item items i j s = Some s'"
  shows "cache_inv env s'"
proof -
  define dest where "dest = (if j > i then j - 1 else j)"
  from move have items: "m_items s' =
      take dest (take i (m_items s) @ drop (Suc i) (m_items s)) @ items ! j #
      drop dest (take i (m_items s) @ drop (Suc i) (m_items s))"
    and vs: "length (m_vs s') = length (m_vs s)"
    and ps: "length (m_ps s') = length (m_ps s)"
    unfolding move_item_def dest_def
    by (auto simp: bind_eq_Some_conv Let_def vec_erase_def vec_insert_def vec_at_def
        split: if_splits)
  let ?ids = "identities env (m_items s)"
  have d: "distinct ?ids" using assms(1) by (simp add: cache_inv_def)
  have "identities env (m_items s') =
        take dest (take i ?ids @ drop (Suc i) ?ids) @ ?ids ! i # drop dest (take i ?ids @ drop (Suc i) ?ids)"
    using assms(2) same by (simp add: items identities_def take_map drop_map)
  moreover have "?ids ! i \<notin> set (take i ?ids @ drop (Suc i) ?ids)"
    using d assms(2) by (intro nth_not_in_erase_at) (simp_all add: identities_def)
  ultimately have "distinct (identities env (m_items s'))"
    using distinct_erase_at [OF d, of i] by (simp only: distinct_insert_at) simp
  then show ?thesis
    using assms(1) vs ps move_item_length [OF move] by (simp add: cache_inv_def cache_aligned_def)
qed

lemma find_and_move_inv:
  assumes "find_and_move env items i j s = Some s'" "cache_inv env s"
  shows "cache_inv env s'"
  by (rule find_and_move_rule [OF assms(1), where P = "cache_inv env"])
     (auto intro: assms(2) move_item_inv)

lemma full_scan_inv:
  assumes "full_scan env items s = Some s'" "cache_inv env s"
  shows "cache_inv env s'"
proof -
  from assms obtain s1 s2 where a: "cache_added env items 0 s = Some s1"
    and r: "cache_removed env items 0 s1 = Some s2"
    and m: "cache_moved env items 0 s2 = Some s'"
    by (auto simp: full_scan_def bind_eq_Some_conv)
  have "cache_inv env s1"
    by (rule cache_added_rule [OF a, where P = "cache_inv env"])
       (auto intro: assms(2) cache_item_inv)
  then have "cache_inv env s2"
    by (rule cache_removed_rule [OF r, where P = "cache_inv env"])
       (auto intro: uncache_item_inv)
  then show ?thesis
    by (rule cache_moved_rule [OF m, where P = "cache_inv env"])
       (auto intro: find_and_move_inv)
qed

lemma cache_inv_cong:
  "m_items t = m_items s \<Longrightarrow> m_vs t = m_vs s \<Longrightarrow> m_ps t = m_ps s \<Longrightarrow>
   cache_inv env t = cache_inv env s"
  by (simp add: cache_inv_def cache_aligned_def)

lemma m_cache_inv:
  assumes "m_cache env items now s = Some s'" "cache_inv env s"
  shows "cache_inv env s'"
proof -
  have "cache_inv env (s\<lparr>m_cacheTimer := now\<rparr>)"
    using assms(2) by (simp add: cache_inv_def cache_aligned_def)
  with assms show ?thesis
    by (auto simp: m_cache_def split: if_splits intro: full_scan_inv)
qed

lemma recompile_item_vectors:
  "recompile_item env i s = Some s' \<Longrightarrow>
   m_items s' = m_items s \<and> m_vs s' = m_vs s \<and> m_ps s' = m_ps s"
  unfolding recompile_item_def by (clarsimp simp: bind_eq_Some_conv Let_def)

lemma Recompile_inv:
  assumes "Recompile env name s = Some s'" "cache_inv env s"
  shows "cache_inv env s'"
proof -
  from assms(1) have run: "Recompile_from env name 0 s = Some s'"
    by (simp add: Recompile_def)
  show ?thesis
  proof (rule Recompile_from_rule [OF run, where P = "cache_inv env"])
    show "cache_inv env s" by (rule assms(2))
  next
    fix i t t'
    assume "cache_inv env t" and "recompile_item env i t = Some t'"
    then show "cache_inv env t'"
      using recompile_item_vectors [of env i t t'] cache_inv_cong [of t' t env] by simp
  qed
qed

lemma FlushCache_inv:
  assumes "FlushCache s = Some s'"
  shows "cache_inv env s'"
  using assms unfolding FlushCache_def
  by (clarsimp simp: bind_eq_Some_conv cache_inv_def cache_aligned_def identities_def)

lemma Render_inv:
  assumes "Render env items now w h s = Some s'" "cache_inv env s"
  shows "cache_inv env s'"
proof -
  let ?s1 = "sync_render_target w h s"
  let ?s2 = "?s1\<lparr>gpu := gpu ?s1 @ [SetViewportSize w h]\<rparr>"
  from assms(1) obtain s3 where c: "m_cache env items now ?s2 = Some s3"
    and v: "m_items s' = m_items s3" "m_vs s' = m_vs s3" "m_ps s' = m_ps s3"
    by (auto simp: Render_def Let_def bind_eq_Some_conv)
  have "cache_inv env ?s2"
    using assms(2) by (simp add: cache_inv_def cache_aligned_def sync_render_target_def)
  then have "cache_inv env s3" by (rule m_cache_inv [OF c])
  then show ?thesis using v by (simp add: cache_inv_def cache_aligned_def)
qed

text \<open>
  Claim C8. The freshly constructed engine satisfies the invariant of the cache (the three
  vectors have the same length, no two snapshot items have the same identity), and every
  public operation that returns keeps it: the reconciler \<^verbatim>\<open>m_cache\<close>, \<^verbatim>\<open>Render\<close>,
  \<^verbatim>\<open>Recompile\<close> and \<^verbatim>\<open>FlushCache\<close>.
\<close>

theorem cache_invariants:
  "cache_inv env (RenderEngine_new t0) \<and>
   (cache_inv env s \<longrightarrow>
      (\<forall>s'. m_cache env items now s = Some s' \<longrightarrow> cache_inv env s') \<and>
      (\<forall>s'. Render env items now w h s = Some s' \<longrightarrow> cache_inv env s') \<and>
      (\<forall>s'. Recompile env name s = Some s' \<longrightarrow> cache_inv env s') \<and>
      (\<forall>s'. FlushCache s = Some s' \<longrightarrow> cache_inv env s'))"
proof -
  have "cache_inv env (RenderEngine_new t0)"
    by (simp add: cache_inv_def cache_aligned_def identities_def RenderEngine_new_def)
  then show ?thesis
    using m_cache_inv Render_inv Recompile_inv FlushCache_inv by blast
qed


theorem cache_invariants_witness:
  "cache_inv example_env (example_engine [1, 2]) \<and>
   (\<exists>s'. m_cache example_env [1, 3, 2] 0 (example_engine [1, 2]) = Some s' \<and>
         cache_inv example_env s') \<and>
   (\<exists>s'. Render example_env [2, 1] 1 640 480 (example_engine [1, 2]) = Some s' \<and>
         cache_inv example_env s') \<and>
   (\<exists>s'. Recompile example_env ''A'' (example_engine [1, 2]) = Some s' \<and>
         cache_inv example_env s') \<and>
   (\<exists>s'. FlushCache (example_engine [1, 2]) = Some s' \<and> cache_inv example_env s')"
proof -
  have inv: "cache_inv example_env (example_engine [1, 2])"
    by (simp add: cache_inv_def cache_aligned_def identities_def example_engine_def
        example_env_def)
  have "\<not> Option.is_none (m_cache example_env [1, 3, 2] 0 (example_engine [1, 2]))"
    by code_simp
  then obtain s1 where s1: "m_cache example_env [1, 3, 2] 0 (example_engine [1, 2]) = Some s1"
    by (auto simp: Option.is_none_def)
  have "\<not> Option.is_none (Render example_env [2, 1] 1 640 480 (example_engine [1, 2]))"
    by code_simp
  then obtain s2 where s2: "Render example_env [2, 1] 1 640 480 (example_engine [1, 2]) = Some s2"
    by (auto simp: Option.is_none_def)
  have "\<not> Option.is_none (Recompile example_env ''A'' (example_engine [1, 2]))"
    by code_simp
  then obtain s3 where s3: "Recompile example_env ''A'' (example_engine [1, 2]) = Some s3"
    by (auto simp: Option.is_none_def)
  have "\<not> Option.is_none (FlushCache (example_engine [1, 2]))"
    by code_simp
  then obtain s4 where s4: "FlushCache (example_engine [1, 2]) = Some s4"
    by (auto simp: Option.is_none_def)
  from cache_invariants [of example_env 0 "example_engine [1, 2]" "[1, 3, 2]" 0] inv s1
  have 1: "cache_inv example_env s1" by blast
  from cache_invariants [of example_env 0 "example_engine [1, 2]" "[2, 1]" 1 640 480] inv s2
  have 2: "cache_inv example_env s2" by blast
  from cache_invariants [of example_env 0 "example_engine [1, 2]" "[]" 0 0 0 "''A''"] inv s3
  have 3: "cache_inv example_env s3" by blast
  from cache_invariants [of example_env 0 "example_engine [1, 2]"] inv s4
  have 4: "cache_inv example_env s4" by blast
  show ?thesis using inv s1 s2 s3 s4 1 2 3 4 by simp
qed

section \<open>Recompile\<close>

lemma recompile_item_defined:
  assumes "i < length (m_vs s)" "i < length (m_ps s)"
    and "objects s (m_vs s ! i) \<noteq> None" "objects s (m_ps s ! i) \<noteq> None"
  shows "\<exists>s'. recompile_item env i s = Some s'"
  using assms unfolding recompile_item_def
  by (auto simp: vec_at_def Let_def)

lemma recompile_item_objects:
  assumes "recompile_item env i s = Some s'"
  shows "next_object s' = next_object s"
    and "\<And>q. q \<noteq> m_vs s ! i \<Longrightarrow> q \<noteq> m_ps s ! i \<Longrightarrow> objects s' q = objects s q"
    and "\<And>q. objects s' q \<noteq> None \<longleftrightarrow> objects s q \<noteq> None"
    and "\<exists>obj. objects s' (m_ps s ! i) = Some obj \<and> ps_loaded env (item_at env (m_items s ! i)) obj"
    and "m_vs s ! i \<noteq> m_ps s ! i \<Longrightarrow>
         \<exists>obj. objects s' (m_vs s ! i) = Some obj \<and> vs_loaded env (item_at env (m_items s ! i)) obj"
  using assms unfolding recompile_item_def vs_loaded_def ps_loaded_def vs_compiles_def
    ps_compiles_def
  by (auto simp: bind_eq_Some_conv Let_def vec_at_def split: if_splits)

lemma objects_ok_distinct:
  assumes "objects_ok s" "cache_aligned s" "i < length (m_items s)" "k < length (m_items s)"
  shows "m_vs s ! i \<noteq> m_ps s ! k"
    and "i \<noteq> k \<Longrightarrow> m_vs s ! i \<noteq> m_vs s ! k"
    and "i \<noteq> k \<Longrightarrow> m_ps s ! i \<noteq> m_ps s ! k"
    and "objects s (m_vs s ! i) \<noteq> None" and "objects s (m_ps s ! i) \<noteq> None"
proof -
  have len: "i < length (m_vs s)" "i < length (m_ps s)" "k < length (m_vs s)" "k < length (m_ps s)"
    using assms by (simp_all add: cache_aligned_def)
  have d: "distinct (m_vs s)" "distinct (m_ps s)" "set (m_vs s) \<inter> set (m_ps s) = {}"
    using assms(1) by (simp_all add: objects_ok_def)
  show "m_vs s ! i \<noteq> m_ps s ! k"
    using d(3) len by (metis disjoint_iff nth_mem)
  show "i \<noteq> k \<Longrightarrow> m_vs s ! i \<noteq> m_vs s ! k"
    using d(1) len by (simp add: nth_eq_iff_index_eq)
  show "i \<noteq> k \<Longrightarrow> m_ps s ! i \<noteq> m_ps s ! k"
    using d(2) len by (simp add: nth_eq_iff_index_eq)
  show "objects s (m_vs s ! i) \<noteq> None" "objects s (m_ps s ! i) \<noteq> None"
    using assms(1) len by (simp_all add: objects_ok_def)
qed

lemma recompile_item_ok:
  assumes "recompile_item env i s = Some s'" "objects_ok s" "cache_aligned s"
  shows "objects_ok s' \<and> cache_aligned s'"
  using assms recompile_item_vectors [OF assms(1)] recompile_item_objects(1,3) [OF assms(1)]
  by (simp add: objects_ok_def cache_aligned_def)

lemma entry_untouched_trans:
  assumes "entry_untouched s s1 k" "entry_untouched s1 s' k" "m_vs s1 = m_vs s" "m_ps s1 = m_ps s"
  shows "entry_untouched s s' k"
  using assms by (simp add: entry_untouched_def)

lemma entry_recompiled_later:
  assumes "entry_recompiled env s1 s' k"
    and "m_items s1 = m_items s" "m_vs s1 = m_vs s" "m_ps s1 = m_ps s"
  shows "entry_recompiled env s s' k"
  using assms by (simp add: entry_recompiled_def)

lemma entry_recompiled_now:
  assumes "entry_recompiled env s s1 k" "entry_untouched s1 s' k" "m_vs s1 = m_vs s" "m_ps s1 = m_ps s"
  shows "entry_recompiled env s s' k"
  using assms by (simp add: entry_recompiled_def entry_untouched_def)

lemma recompile_item_entries:
  assumes s1: "recompile_item env i s = Some s1"
    and ok: "objects_ok s" "cache_aligned s" and i: "i < length (m_items s)"
  shows "entry_recompiled env s s1 i"
    and "\<And>k. k < length (m_items s) \<Longrightarrow> k \<noteq> i \<Longrightarrow> entry_untouched s s1 k"
proof -
  note d = objects_ok_distinct [OF ok]
  note o = recompile_item_objects [OF s1]
  show "entry_recompiled env s s1 i"
    using o(4) o(5) [OF d(1) [OF i i]] by (auto simp: entry_recompiled_def)
  fix k assume k: "k < length (m_items s)" "k \<noteq> i"
  have "m_vs s ! k \<noteq> m_vs s ! i" "m_vs s ! k \<noteq> m_ps s ! i"
    "m_ps s ! k \<noteq> m_vs s ! i" "m_ps s ! k \<noteq> m_ps s ! i"
    using d(1) [OF k(1) i] d(1) [OF i k(1)] d(2) [OF k(1) i] d(3) [OF k(1) i] k(2) by auto
  then show "entry_untouched s s1 k"
    using o(2) by (simp add: entry_untouched_def)
qed

lemma Recompile_from_correct:
  assumes "objects_ok s" "cache_aligned s"
  shows "\<exists>s'. Recompile_from env name i s = Some s' \<and> recompiled_from env name i s s'"
  using assms
proof (induction "length (m_items s) - i" arbitrary: i s)
  case 0
  then have "Recompile_from env name i s = Some s" by (simp add: Recompile_from_done)
  moreover have "recompiled_from env name i s s"
    using 0 by (simp add: recompiled_from_def entry_untouched_def)
  ultimately show ?case by blast
next
  case (Suc n)
  then have i: "i < length (m_items s)" by simp
  show ?case
  proof (cases "Name (item_at env (m_items s ! i)) = name")
    case False
    have n: "n = length (m_items s) - Suc i" using Suc.hyps(2) by simp
    from Suc.hyps(1) [OF n Suc.prems] obtain s' where
      run: "Recompile_from env name (Suc i) s = Some s'" and r: "recompiled_from env name (Suc i) s s'"
      by blast
    have "recompiled_from env name i s s'"
      unfolding recompiled_from_def
    proof (intro conjI allI impI)
      fix k assume k: "k < length (m_items s)"
        and m: "i \<le> k \<and> Name (item_at env (m_items s ! k)) = name"
      with False have "Suc i \<le> k" by (cases "k = i") auto
      with r k m show "entry_recompiled env s s' k" by (simp add: recompiled_from_def)
    next
      fix k assume k: "k < length (m_items s)"
        and m: "\<not> (i \<le> k \<and> Name (item_at env (m_items s ! k)) = name)"
      then have "\<not> (Suc i \<le> k \<and> Name (item_at env (m_items s ! k)) = name)" by auto
      with r k show "entry_untouched s s' k" by (simp add: recompiled_from_def)
    qed (use r in \<open>simp_all add: recompiled_from_def\<close>)
    with run i False show ?thesis by (simp add: Recompile_from_other)
  next
    case True
    note d = objects_ok_distinct [OF Suc.prems]
    obtain s1 where s1: "recompile_item env i s = Some s1"
      using recompile_item_defined [of i s env] d(4,5) [OF i i] i Suc.prems(2)
      by (auto simp: cache_aligned_def)
    note v = recompile_item_vectors [OF s1]
    note o = recompile_item_objects [OF s1]
    note e = recompile_item_entries [OF s1 Suc.prems i]
    have ok1: "objects_ok s1" "cache_aligned s1"
      using recompile_item_ok [OF s1 Suc.prems] by simp_all
    have n: "n = length (m_items s1) - Suc i" using Suc.hyps(2) v by simp
    from Suc.hyps(1) [OF n ok1] obtain s' where
      run: "Recompile_from env name (Suc i) s1 = Some s'"
      and r: "recompiled_from env name (Suc i) s1 s'"
      by blast
    have r1: "\<And>k. k < length (m_items s) \<Longrightarrow> Suc i \<le> k \<Longrightarrow>
                 Name (item_at env (m_items s ! k)) = name \<Longrightarrow> entry_recompiled env s1 s' k"
      and r2: "\<And>k. k < length (m_items s) \<Longrightarrow>
                 \<not> (Suc i \<le> k \<and> Name (item_at env (m_items s ! k)) = name) \<Longrightarrow>
                 entry_untouched s1 s' k"
      using r v by (simp_all add: recompiled_from_def)
    have "recompiled_from env name i s s'"
      unfolding recompiled_from_def
    proof (intro conjI allI impI)
      fix k assume k: "k < length (m_items s)"
        and m: "i \<le> k \<and> Name (item_at env (m_items s ! k)) = name"
      show "entry_recompiled env s s' k"
      proof (cases "k = i")
        case ki: True
        have u: "entry_untouched s1 s' i" using r2 [OF i] by simp
        show ?thesis unfolding ki using entry_recompiled_now [OF e(1) u] v by simp
      next
        case False
        with m have "Suc i \<le> k" by auto
        from r1 [OF k this] m have "entry_recompiled env s1 s' k" by simp
        from entry_recompiled_later [OF this] v show ?thesis by simp
      qed
    next
      fix k assume k: "k < length (m_items s)"
        and m: "\<not> (i \<le> k \<and> Name (item_at env (m_items s ! k)) = name)"
      with True have ne: "k \<noteq> i" by auto
      from m have "\<not> (Suc i \<le> k \<and> Name (item_at env (m_items s ! k)) = name)" by auto
      from entry_untouched_trans [OF e(2) [OF k ne] r2 [OF k this]] v
      show "entry_untouched s s' k" by simp
    qed (use r v o(1) in \<open>simp_all add: recompiled_from_def\<close>)
    with run i True s1 show ?thesis by (simp add: Recompile_from_match)
  qed
qed

lemma Recompile_from_msgs:
  assumes "Recompile_from env name i s = Some s'"
  shows "\<exists>calls. msgs s' = msgs s @ calls \<and> (\<forall>c \<in> set calls. group_of c = name)"
proof (rule Recompile_from_rule [OF assms,
      where P = "\<lambda>t. \<exists>calls. msgs t = msgs s @ calls \<and> (\<forall>c \<in> set calls. group_of c = name)"])
  show "\<exists>calls. msgs s = msgs s @ calls \<and> (\<forall>c \<in> set calls. group_of c = name)"
    by simp
next
  fix i t t'
  assume "\<exists>calls. msgs t = msgs s @ calls \<and> (\<forall>c \<in> set calls. group_of c = name)"
    and "Name (item_at env (m_items t ! i)) = name" and "recompile_item env i t = Some t'"
  then show "\<exists>calls. msgs t' = msgs s @ calls \<and> (\<forall>c \<in> set calls. group_of c = name)"
    using recompile_item_msgs [of env i t t'] by auto
qed


text \<open>
  Claim C5. On an engine that owns its shader objects and whose vectors are aligned,
  \<^verbatim>\<open>Recompile\<close> returns; the three vectors are as before (no identity or position
  changes) and no object is allocated. For every index whose item has the given name, the
  two shader objects at that index hold the freshly loaded sources and the results of
  compiling them, the vertex shader with the input layout bound if and only if the pass
  declares an input element. For every other index the two shader objects are as before,
  and every call made on the message stack is for the group of the given name.
\<close>

theorem Recompile_in_place:
  assumes "objects_ok s" "cache_aligned s"
  shows "\<exists>s'. Recompile env name s = Some s' \<and>
     m_items s' = m_items s \<and> m_vs s' = m_vs s \<and> m_ps s' = m_ps s \<and>
     next_object s' = next_object s \<and>
     (\<forall>k < length (m_items s).
        if Name (item_at env (m_items s ! k)) = name then
          (\<exists>v p. objects s' (m_vs s ! k) = Some v \<and> vs_loaded env (item_at env (m_items s ! k)) v \<and>
                 objects s' (m_ps s ! k) = Some p \<and> ps_loaded env (item_at env (m_items s ! k)) p)
        else objects s' (m_vs s ! k) = objects s (m_vs s ! k) \<and>
             objects s' (m_ps s ! k) = objects s (m_ps s ! k)) \<and>
     (\<exists>calls. msgs s' = msgs s @ calls \<and> (\<forall>c \<in> set calls. group_of c = name))"
proof -
  from Recompile_from_correct [OF assms, of env name 0] obtain s' where
    run: "Recompile_from env name 0 s = Some s'" and r: "recompiled_from env name 0 s s'"
    by blast
  have "\<forall>k < length (m_items s).
        if Name (item_at env (m_items s ! k)) = name then
          (\<exists>v p. objects s' (m_vs s ! k) = Some v \<and> vs_loaded env (item_at env (m_items s ! k)) v \<and>
                 objects s' (m_ps s ! k) = Some p \<and> ps_loaded env (item_at env (m_items s ! k)) p)
        else objects s' (m_vs s ! k) = objects s (m_vs s ! k) \<and>
             objects s' (m_ps s ! k) = objects s (m_ps s ! k)"
  proof (intro allI impI)
    fix k assume k: "k < length (m_items s)"
    from r k have
      "Name (item_at env (m_items s ! k)) = name \<longrightarrow> entry_recompiled env s s' k"
      "Name (item_at env (m_items s ! k)) \<noteq> name \<longrightarrow> entry_untouched s s' k"
      by (simp_all add: recompiled_from_def)
    then show "if Name (item_at env (m_items s ! k)) = name then
          (\<exists>v p. objects s' (m_vs s ! k) = Some v \<and> vs_loaded env (item_at env (m_items s ! k)) v \<and>
                 objects s' (m_ps s ! k) = Some p \<and> ps_loaded env (item_at env (m_items s ! k)) p)
        else objects s' (m_vs s ! k) = objects s (m_vs s ! k) \<and>
             objects s' (m_ps s ! k) = objects s (m_ps s ! k)"
      by (cases "Name (item_at env (m_items s ! k)) = name")
         (simp_all add: entry_recompiled_def entry_untouched_def)
  qed
  moreover have "m_items s' = m_items s" "m_vs s' = m_vs s" "m_ps s' = m_ps s"
    "next_object s' = next_object s"
    using r by (simp_all add: recompiled_from_def)
  moreover note Recompile_from_msgs [OF run]
  ultimately show ?thesis using run unfolding Recompile_def by blast
qed

theorem Recompile_in_place_witness:
  "objects_ok (example_engine [1, 2]) \<and> cache_aligned (example_engine [1, 2]) \<and>
   (\<exists>s'. Recompile example_env ''A'' (example_engine [1, 2]) = Some s' \<and>
      m_items s' = [1, 2] \<and> m_vs s' = [0, 2] \<and> m_ps s' = [1, 3] \<and>
      (\<exists>v. objects s' 0 = Some v \<and> InputSignature v = Some 11 \<and> Source v = ''vs.hlsl'' \<and>
           Compiled v) \<and>
      objects s' 2 = objects (example_engine [1, 2]) 2 \<and>
      objects s' 3 = objects (example_engine [1, 2]) 3)"
proof -
  have ok: "objects_ok (example_engine [1, 2])"
    by (simp add: objects_ok_def example_engine_def upt_conv_Cons)
  have al: "cache_aligned (example_engine [1, 2])"
    by (simp add: cache_aligned_def example_engine_def)
  have v: "m_items (example_engine [1, 2]) = [1, 2]" "m_vs (example_engine [1, 2]) = [0, 2]"
    "m_ps (example_engine [1, 2]) = [1, 3]"
    by (simp_all add: example_engine_def upt_conv_Cons)
  from Recompile_in_place [OF ok al, of example_env "''A''"] obtain s' where
    run: "Recompile example_env ''A'' (example_engine [1, 2]) = Some s'"
    and same: "m_items s' = [1, 2]" "m_vs s' = [0, 2]" "m_ps s' = [1, 3]"
    and each: "\<forall>k < length [1::nat, 2].
        if Name (item_at example_env ([1, 2] ! k)) = ''A'' then
          (\<exists>v p. objects s' ([0, 2] ! k) = Some v \<and> vs_loaded example_env (item_at example_env ([1, 2] ! k)) v \<and>
                 objects s' ([1, 3] ! k) = Some p \<and> ps_loaded example_env (item_at example_env ([1, 2] ! k)) p)
        else objects s' ([0, 2] ! k) = objects (example_engine [1, 2]) ([0, 2] ! k) \<and>
             objects s' ([1, 3] ! k) = objects (example_engine [1, 2]) ([1, 3] ! k)"
    unfolding v by blast
  from each [rule_format, of 0] have
    "\<exists>v. objects s' 0 = Some v \<and> InputSignature v = Some 11 \<and> Source v = ''vs.hlsl'' \<and> Compiled v"
    by (auto simp: example_env_def vs_loaded_def vs_compiles_def)
  moreover from each [rule_format, of 1] have
    "objects s' 2 = objects (example_engine [1, 2]) 2 \<and>
     objects s' 3 = objects (example_engine [1, 2]) 3"
    by (simp add: example_env_def)
  ultimately show ?thesis using ok al run same by blast
qed

section \<open>Insertions\<close>

lemma cache_item_defined:
  assumes "i \<le> length (m_items s)" "i \<le> length (m_vs s)" "i \<le> length (m_ps s)"
  shows "\<exists>s'. cache_item env i p s = Some s'"
  using assms unfolding cache_item_def by (simp add: vec_insert_def Let_def)

lemma cache_item_result:
  assumes "cache_item env i p s = Some s'"
  shows "i \<le> length (m_items s)" "i \<le> length (m_vs s)" "i \<le> length (m_ps s)"
    and "m_items s' = take i (m_items s) @ p # drop i (m_items s)"
    and "m_vs s' = take i (m_vs s) @ next_object s # drop i (m_vs s)"
    and "m_ps s' = take i (m_ps s) @ Suc (next_object s) # drop i (m_ps s)"
    and "next_object s' = Suc (Suc (next_object s))"
    and "\<And>q. q < next_object s \<Longrightarrow> objects s' q = objects s q"
    and "\<exists>v. objects s' (next_object s) = Some v \<and> vs_loaded env (item_at env p) v"
    and "\<exists>v. objects s' (Suc (next_object s)) = Some v \<and> ps_loaded env (item_at env p) v"
  using assms unfolding cache_item_def vs_loaded_def ps_loaded_def vs_compiles_def ps_compiles_def
  by (auto simp: bind_eq_Some_conv Let_def vec_insert_def split: if_splits)

lemma cache_item_backend:
  assumes "cache_item env i p s = Some s'"
  shows "backend s' = backend s @
     [New (next_object s), New (Suc (next_object s)), Layout_Reset (Data (item_at env p)),
      Load_File (VSPath (pass_at env (Data (item_at env p)))),
      Load_File (PSPath (pass_at env (Data (item_at env p)))),
      VS_Load (next_object s), PS_Load (Suc (next_object s))]"
  using assms unfolding cache_item_def
  by (auto simp: bind_eq_Some_conv Let_def)


subsection \<open>Iterations that change nothing\<close>

lemma cache_added_skip:
  assumes "\<forall>j. i \<le> j \<and> j < length items \<longrightarrow> found_in env (m_items s) (items ! j)"
  shows "cache_added env items i s = Some s"
  using assms
proof (induction "length items - i" arbitrary: i)
  case 0
  then show ?case by (simp add: cache_added_done)
next
  case (Suc n)
  then have i: "i < length items" by simp
  have "cache_added env items (Suc i) s = Some s"
    using Suc.hyps(2) Suc.prems by (intro Suc.hyps(1)) auto
  with i Suc.prems show ?case by (simp add: cache_added_found)
qed

lemma cache_added_prefix:
  assumes "\<forall>j. i \<le> j \<and> j < k \<longrightarrow> found_in env (m_items s) (items ! j)"
    and "i \<le> k" "k \<le> length items"
  shows "cache_added env items i s = cache_added env items k s"
  using assms
proof (induction "k - i" arbitrary: i)
  case 0
  then show ?case by simp
next
  case (Suc n)
  then have i: "i < length items" "i < k" by simp_all
  have "cache_added env items (Suc i) s = cache_added env items k s"
    using Suc.hyps(2) Suc.prems by (intro Suc.hyps(1)) auto
  with i Suc.prems show ?case by (simp add: cache_added_found)
qed

lemma cache_removed_skip:
  assumes "\<forall>j. i \<le> j \<and> j < length (m_items s) \<longrightarrow> found_in env items (m_items s ! j)"
  shows "cache_removed env items i s = Some s"
  using assms
proof (induction "length (m_items s) - i" arbitrary: i)
  case 0
  then show ?case by (simp add: cache_removed_done)
next
  case (Suc n)
  then have i: "i < length (m_items s)" by simp
  have "cache_removed env items (Suc i) s = Some s"
    using Suc.hyps(2) Suc.prems by (intro Suc.hyps(1)) auto
  with i Suc.prems show ?case by (simp add: cache_removed_found)
qed

lemma cache_moved_skip:
  assumes "\<forall>j. i \<le> j \<and> j < length (m_items s) \<longrightarrow>
             j < length items \<and> Data (item_at env (items ! j)) = Data (item_at env (m_items s ! j))"
  shows "cache_moved env items i s = Some s"
  using assms
proof (induction "length (m_items s) - i" arbitrary: i)
  case 0
  then show ?case by (simp add: cache_moved_done)
next
  case (Suc n)
  then have i: "i < length (m_items s)" by simp
  have "cache_moved env items (Suc i) s = Some s"
    using Suc.hyps(2) Suc.prems by (intro Suc.hyps(1)) auto
  with i Suc.prems show ?case by (simp add: cache_moved_match)
qed

lemma found_in_nth: "j < length xs \<Longrightarrow> found_in env xs (xs ! j)"
  by (simp add: found_in_iff identities_def)

subsection \<open>One new item\<close>

lemma single_insertion:
  assumes al: "cache_aligned s"
    and d: "distinct (identities env items)"
    and k: "k \<le> length (m_items s)"
    and items: "items = take k (m_items s) @ x # drop k (m_items s)"
  shows "m_cache env items now s = cache_item env k x s"
    and "\<exists>s'. cache_item env k x s = Some s' \<and> m_items s' = items"
proof -
  let ?snap = "m_items s"
  have len: "length items = Suc (length ?snap)" using k by (simp add: items)
  have lk: "length (take k ?snap) = k" using k by simp
  have before: "\<And>j. j < k \<Longrightarrow> items ! j = ?snap ! j"
    using k by (simp add: items nth_append)
  have at: "items ! k = x"
    using lk by (simp add: items nth_append)
  have x_new: "\<not> found_in env ?snap x"
  proof -
    have "identities env items =
          identities env (take k ?snap) @ Data (item_at env x) # identities env (drop k ?snap)"
      by (simp add: items identities_def)
    with d have "Data (item_at env x) \<notin> set (identities env (take k ?snap) @ identities env (drop k ?snap))"
      by (simp only: distinct_insert_mid) simp
    moreover have "identities env (take k ?snap) @ identities env (drop k ?snap) = identities env ?snap"
      by (simp add: identities_def flip: map_append)
    ultimately show ?thesis by (simp add: found_in_iff)
  qed
  obtain s1 where s1: "cache_item env k x s = Some s1"
    using cache_item_defined [of k s env x] al k by (auto simp: cache_aligned_def)
  have items1: "m_items s1 = items"
    using cache_item_result(4) [OF s1] by (simp add: items)
  have a0: "cache_added env items 0 s = cache_added env items k s"
  proof (rule cache_added_prefix)
    show "\<forall>j. 0 \<le> j \<and> j < k \<longrightarrow> found_in env ?snap (items ! j)"
      using before k found_in_nth [of _ ?snap env] by auto
  qed (use len k in simp_all)
  have a1: "cache_added env items k s = cache_added env items (Suc k) s1"
    using len k x_new at s1 by (simp add: cache_added_new)
  have a2: "cache_added env items (Suc k) s1 = Some s1"
    by (rule cache_added_skip) (simp add: items1 found_in_nth)
  have r: "cache_removed env items 0 s1 = Some s1"
    by (rule cache_removed_skip) (simp add: items1 found_in_nth)
  have m: "cache_moved env items 0 s1 = Some s1"
    by (rule cache_moved_skip) (simp add: items1)
  have "full_scan env items s = Some s1"
    using a0 a1 a2 r m by (simp add: full_scan_def)
  then show "m_cache env items now s = cache_item env k x s"
    using len s1 by (simp add: m_cache_def)
  show "\<exists>s'. cache_item env k x s = Some s' \<and> m_items s' = items"
    using s1 items1 by blast
qed


subsection \<open>The loop over the external list\<close>

lemma olds_kept_refl: "olds_kept s s"
  by (simp add: olds_kept_def)

lemma olds_kept_trans:
  assumes "olds_kept s s1" "olds_kept s1 s'"
  shows "olds_kept s s'"
proof -
  from assms have n: "next_object s \<le> next_object s1" "next_object s1 \<le> next_object s'"
    by (simp_all add: olds_kept_def)
  have o: "\<forall>q < next_object s. objects s' q = objects s q"
  proof (intro allI impI)
    fix q assume q: "q < next_object s"
    then have "q < next_object s1" using n by simp
    then have "objects s' q = objects s1 q" using assms(2) by (simp add: olds_kept_def)
    also have "\<dots> = objects s q" using assms(1) q by (simp add: olds_kept_def)
    finally show "objects s' q = objects s q" .
  qed
  have f: "\<forall>b \<le> next_object s.
         filter (\<lambda>q. q < b) (m_vs s') = filter (\<lambda>q. q < b) (m_vs s) \<and>
         filter (\<lambda>q. q < b) (m_ps s') = filter (\<lambda>q. q < b) (m_ps s)"
  proof (intro allI impI)
    fix b assume b: "b \<le> next_object s"
    then have b1: "b \<le> next_object s1" using n by simp
    have 1: "filter (\<lambda>q. q < b) (m_vs s') = filter (\<lambda>q. q < b) (m_vs s1) \<and>
             filter (\<lambda>q. q < b) (m_ps s') = filter (\<lambda>q. q < b) (m_ps s1)"
      using assms(2) b1 unfolding olds_kept_def by blast
    have 2: "filter (\<lambda>q. q < b) (m_vs s1) = filter (\<lambda>q. q < b) (m_vs s) \<and>
             filter (\<lambda>q. q < b) (m_ps s1) = filter (\<lambda>q. q < b) (m_ps s)"
      using assms(1) b unfolding olds_kept_def by blast
    from 1 2 show "filter (\<lambda>q. q < b) (m_vs s') = filter (\<lambda>q. q < b) (m_vs s) \<and>
         filter (\<lambda>q. q < b) (m_ps s') = filter (\<lambda>q. q < b) (m_ps s)"
      by simp
  qed
  from n o f show ?thesis unfolding olds_kept_def by simp
qed

lemma filter_insert_at_above:
  assumes "\<not> P x"
  shows "filter P (take i xs @ x # drop i xs) = filter P xs"
proof -
  have "filter P (take i xs @ x # drop i xs) = filter P (take i xs) @ filter P (drop i xs)"
    using assms by simp
  also have "\<dots> = filter P (take i xs @ drop i xs)"
    by (rule filter_append [symmetric])
  also have "\<dots> = filter P xs"
    by (simp only: append_take_drop_id)
  finally show ?thesis .
qed

lemma cache_item_olds:
  assumes "cache_item env i p s = Some s1"
  shows "olds_kept s s1"
proof -
  note r = cache_item_result [OF assms]
  have f: "\<forall>b \<le> next_object s.
      filter (\<lambda>q. q < b) (m_vs s1) = filter (\<lambda>q. q < b) (m_vs s) \<and>
      filter (\<lambda>q. q < b) (m_ps s1) = filter (\<lambda>q. q < b) (m_ps s)"
  proof (intro allI impI)
    fix b assume "b \<le> next_object s"
    then have n: "\<not> next_object s < b" "\<not> Suc (next_object s) < b" by simp_all
    show "filter (\<lambda>q. q < b) (m_vs s1) = filter (\<lambda>q. q < b) (m_vs s) \<and>
      filter (\<lambda>q. q < b) (m_ps s1) = filter (\<lambda>q. q < b) (m_ps s)"
      unfolding r(5) r(6)
      using filter_insert_at_above [of "\<lambda>q. q < b" "next_object s" i "m_vs s", OF n(1)]
        filter_insert_at_above [of "\<lambda>q. q < b" "Suc (next_object s)" i "m_ps s", OF n(2)]
      by blast
  qed
  have "next_object s \<le> next_object s1" using r(7) by simp
  moreover have "\<forall>q < next_object s. objects s1 q = objects s q" using r(8) by simp
  ultimately show ?thesis using f unfolding olds_kept_def by blast
qed

lemma prefix_kept_refl: "prefix_kept i s s"
  by (simp add: prefix_kept_def)

lemma take_eq_less: "take (Suc i) xs = take (Suc i) ys \<Longrightarrow> take i xs = take i ys"
proof -
  assume a: "take (Suc i) xs = take (Suc i) ys"
  have "take i xs = take i (take (Suc i) xs)" by (simp add: min_def)
  also have "\<dots> = take i (take (Suc i) ys)" by (simp only: a)
  also have "\<dots> = take i ys" by (simp add: min_def)
  finally show ?thesis .
qed

lemma take_eq_nth:
  assumes "take (Suc i) xs = take (Suc i) ys" "i < length ys"
  shows "i < length xs \<and> xs ! i = ys ! i"
proof -
  have "length (take (Suc i) xs) = length (take (Suc i) ys)" using assms(1) by simp
  then have l: "i < length xs" using assms(2) by (simp add: min_def split: if_splits)
  have "xs ! i = take (Suc i) xs ! i" by simp
  also have "\<dots> = take (Suc i) ys ! i" using assms(1) by simp
  also have "\<dots> = ys ! i" by simp
  finally show ?thesis using l by simp
qed

lemma prefix_kept_less: "prefix_kept (Suc i) s s' \<Longrightarrow> prefix_kept i s s'"
  unfolding prefix_kept_def by (blast intro: take_eq_less)

lemma prefix_kept_trans: "prefix_kept i s s1 \<Longrightarrow> prefix_kept i s1 s' \<Longrightarrow> prefix_kept i s s'"
  by (simp add: prefix_kept_def)

lemma cache_item_prefix:
  assumes "cache_item env i p s = Some s1"
  shows "prefix_kept i s s1"
  using cache_item_result(1-6) [OF assms] by (simp add: prefix_kept_def)

lemma cache_item_aligned:
  assumes "cache_item env i p s = Some s1" "cache_aligned s"
  shows "cache_aligned s1"
  using cache_item_result(1-6) [OF assms(1)] assms(2) by (simp add: cache_aligned_def)

lemma entry_new_mono:
  assumes "entry_new env s1 s' p k" "next_object s \<le> next_object s1"
  shows "entry_new env s s' p k"
  using assms by (auto simp: entry_new_def)

lemma entry_new_here:
  assumes c: "cache_item env i p s = Some s1"
    and pre: "prefix_kept (Suc i) s1 s'" and old: "olds_kept s1 s'"
  shows "entry_new env s s' p i"
proof -
  note r = cache_item_result [OF c]
  have li: "length (take i (m_items s)) = i" "length (take i (m_vs s)) = i"
    "length (take i (m_ps s)) = i"
    using r(1-3) by simp_all
  have at1: "i < length (m_items s1)" "m_items s1 ! i = p"
    "i < length (m_vs s1)" "m_vs s1 ! i = next_object s"
    "i < length (m_ps s1)" "m_ps s1 ! i = Suc (next_object s)"
    unfolding r(4) r(5) r(6) using r(1-3) li by (simp_all add: nth_append)
  from pre have t: "take (Suc i) (m_items s') = take (Suc i) (m_items s1)"
    "take (Suc i) (m_vs s') = take (Suc i) (m_vs s1)"
    "take (Suc i) (m_ps s') = take (Suc i) (m_ps s1)"
    by (simp_all add: prefix_kept_def)
  have at: "i < length (m_items s')" "m_items s' ! i = p"
    "m_vs s' ! i = next_object s" "m_ps s' ! i = Suc (next_object s)"
    using take_eq_nth [OF t(1) at1(1)] take_eq_nth [OF t(2) at1(3)] take_eq_nth [OF t(3) at1(5)]
      at1 by simp_all
  have o: "objects s' (next_object s) = objects s1 (next_object s)"
    "objects s' (Suc (next_object s)) = objects s1 (Suc (next_object s))"
    using old r(7) by (simp_all add: olds_kept_def)
  show ?thesis
    unfolding entry_new_def at o using at(1) r(9) r(10) by auto
qed

lemma covered_length:
  assumes d: "distinct (identities env items)" and i: "i \<le> length items"
    and sub: "set (identities env (take i items)) \<subseteq> set (identities env xs)"
  shows "i \<le> length xs"
proof -
  have "identities env (take i items) = take i (identities env items)"
    by (simp add: identities_def take_map)
  then have "distinct (identities env (take i items))" using d by simp
  then have "card (set (identities env (take i items))) = length (identities env (take i items))"
    by (rule distinct_card)
  also have "\<dots> = i" using i by (simp add: identities_def)
  finally have "i = card (set (identities env (take i items)))" by simp
  also have "\<dots> \<le> card (set (identities env xs))" using sub by (intro card_mono) simp_all
  also have "\<dots> \<le> length (identities env xs)" by (rule card_length)
  finally show ?thesis by (simp add: identities_def)
qed

lemma identities_take_Suc:
  assumes "i < length items"
  shows "set (identities env (take (Suc i) items)) =
         insert (Data (item_at env (items ! i))) (set (identities env (take i items)))"
  using assms by (simp add: identities_def take_Suc_conv_app_nth)

lemma identities_differ:
  assumes "distinct (identities env items)" "i < length items" "k < length items" "k \<noteq> i"
  shows "Data (item_at env (items ! k)) \<noteq> Data (item_at env (items ! i))"
proof -
  have l: "k < length (identities env items)" "i < length (identities env items)"
    using assms by (simp_all add: identities_def)
  have n: "identities env items ! k = Data (item_at env (items ! k))"
    "identities env items ! i = Data (item_at env (items ! i))"
    using assms by (simp_all add: identities_def)
  from nth_eq_iff_index_eq [OF assms(1) l] assms(4)
  have "identities env items ! k \<noteq> identities env items ! i" by simp
  then show ?thesis unfolding n .
qed

lemma added_from_refl:
  assumes "cache_aligned s" "\<not> i < length items"
  shows "added_from env items i s s"
  using assms by (auto simp: added_from_def prefix_kept_refl olds_kept_refl)

lemma cache_added_correct:
  assumes "cache_aligned s" and "distinct (identities env items)"
    and "set (identities env (take i items)) \<subseteq> set (identities env (m_items s))"
  shows "\<exists>s'. cache_added env items i s = Some s' \<and> added_from env items i s s'"
  using assms
proof (induction "length items - i" arbitrary: i s)
  case 0
  then have "\<not> i < length items" by simp
  then show ?case using added_from_refl [OF "0.prems"(1)] by (simp add: cache_added_done)
next
  case (Suc n)
  then have i: "i < length items" by simp
  have n: "n = length items - Suc i" using Suc.hyps(2) by simp
  note d = Suc.prems(2)
  show ?case
  proof (cases "found_in env (m_items s) (items ! i)")
    case True
    have sub: "set (identities env (take (Suc i) items)) \<subseteq> set (identities env (m_items s))"
      using Suc.prems(3) True by (simp add: identities_take_Suc [OF i] found_in_iff)
    from Suc.hyps(1) [OF n Suc.prems(1) d sub] obtain s' where
      run: "cache_added env items (Suc i) s = Some s'"
      and r: "added_from env items (Suc i) s s'"
      by blast
    have "added_from env items i s s'"
      unfolding added_from_def
    proof (intro conjI allI impI)
      show "cache_aligned s'" "olds_kept s s'" using r by (simp_all add: added_from_def)
      show "prefix_kept i s s'" using r by (simp add: added_from_def prefix_kept_less)
    next
      fix k assume k: "i \<le> k \<and> k < length items \<and> \<not> found_in env (m_items s) (items ! k)"
      with True have "k \<noteq> i" by auto
      with k have "Suc i \<le> k" by simp
      with k r show "entry_new env s s' (items ! k) k" by (simp add: added_from_def)
    qed
    with run i True show ?thesis by (simp add: cache_added_found)
  next
    case False
    have "i \<le> length (m_items s)"
      using covered_length [OF d _ Suc.prems(3)] i by simp
    then obtain s1 where s1: "cache_item env i (items ! i) s = Some s1"
      using cache_item_defined [of i s env "items ! i"] Suc.prems(1)
      by (auto simp: cache_aligned_def)
    note res = cache_item_result [OF s1]
    have al1: "cache_aligned s1" by (rule cache_item_aligned [OF s1 Suc.prems(1)])
    have ids1: "set (identities env (m_items s1)) =
                insert (Data (item_at env (items ! i))) (set (identities env (m_items s)))"
    proof -
      have "set (m_items s1) = insert (items ! i) (set (take i (m_items s)) \<union> set (drop i (m_items s)))"
        unfolding res(4) by simp
      also have "set (take i (m_items s)) \<union> set (drop i (m_items s)) = set (m_items s)"
        by (metis append_take_drop_id set_append)
      finally show ?thesis by (simp add: identities_def)
    qed
    have sub: "set (identities env (take (Suc i) items)) \<subseteq> set (identities env (m_items s1))"
      using Suc.prems(3) by (auto simp: identities_take_Suc [OF i] ids1)
    from Suc.hyps(1) [OF n al1 d sub] obtain s' where
      run: "cache_added env items (Suc i) s1 = Some s'"
      and r: "added_from env items (Suc i) s1 s'"
      by blast
    have r': "cache_aligned s'" "prefix_kept (Suc i) s1 s'" "olds_kept s1 s'"
      using r by (simp_all add: added_from_def)
    have old1: "olds_kept s s1" by (rule cache_item_olds [OF s1])
    have "added_from env items i s s'"
      unfolding added_from_def
    proof (intro conjI allI impI)
      show "cache_aligned s'" by (rule r'(1))
      show "olds_kept s s'" by (rule olds_kept_trans [OF old1 r'(3)])
      show "prefix_kept i s s'"
        by (rule prefix_kept_trans [OF cache_item_prefix [OF s1] prefix_kept_less [OF r'(2)]])
    next
      fix k assume k: "i \<le> k \<and> k < length items \<and> \<not> found_in env (m_items s) (items ! k)"
      show "entry_new env s s' (items ! k) k"
      proof (cases "k = i")
        case True
        show ?thesis unfolding True by (rule entry_new_here [OF s1 r'(2) r'(3)])
      next
        case ne: False
        with k have le: "Suc i \<le> k" and kl: "k < length items" by simp_all
        have "Data (item_at env (items ! k)) \<noteq> Data (item_at env (items ! i))"
          by (rule identities_differ [OF d i kl ne])
        with k have "\<not> found_in env (m_items s1) (items ! k)"
          by (simp add: found_in_iff ids1)
        with r le kl have "entry_new env s1 s' (items ! k) k"
          by (simp add: added_from_def)
        moreover have "next_object s \<le> next_object s1" using res(7) by simp
        ultimately show ?thesis by (rule entry_new_mono)
      qed
    qed
    with run i False s1 show ?thesis by (simp add: cache_added_new)
  qed
qed

lemma olds_below:
  assumes "objects_ok s"
  shows "filter (\<lambda>q. q < next_object s) (m_vs s) = m_vs s"
    and "filter (\<lambda>q. q < next_object s) (m_ps s) = m_ps s"
    and "\<And>q. q \<in> set (m_vs s @ m_ps s) \<Longrightarrow> q < next_object s"
  using assms by (auto simp: objects_ok_def filter_id_conv)

text \<open>
  Claim C1. Let the vectors be aligned, the engine own its shader objects, and the external
  items have distinct identities. Then the insertion loop of the full scan returns, and
  every external item whose identity is not in the snapshot is in the snapshot at its
  external position, with a vertex and a pixel shader object at that same position that
  were allocated during the scan and hold the item's sources and the results of compiling
  them; the objects that existed before are unchanged and stay in the vectors in their
  order. When the external list is the snapshot with exactly one new item at position
  \<open>k\<close>, the whole reconciliation is the caching of that one item: the snapshot becomes
  the external list, one new vertex and one new pixel shader object are inserted at
  position \<open>k\<close>, each stage is loaded once, and no existing object is touched.
\<close>

theorem cache_added_inserts:
  assumes al: "cache_aligned s" and ok: "objects_ok s" and d: "distinct (identities env items)"
  shows "(\<exists>s1. cache_added env items 0 s = Some s1 \<and>
      (\<forall>k < length items. \<not> found_in env (m_items s) (items ! k) \<longrightarrow>
         k < length (m_items s1) \<and> m_items s1 ! k = items ! k \<and>
         m_vs s1 ! k \<notin> set (m_vs s @ m_ps s) \<and> m_ps s1 ! k \<notin> set (m_vs s @ m_ps s) \<and>
         (\<exists>v p. objects s1 (m_vs s1 ! k) = Some v \<and> vs_loaded env (item_at env (items ! k)) v \<and>
                objects s1 (m_ps s1 ! k) = Some p \<and> ps_loaded env (item_at env (items ! k)) p)) \<and>
      (\<forall>q \<in> set (m_vs s @ m_ps s). objects s1 q = objects s q) \<and>
      filter (\<lambda>q. q < next_object s) (m_vs s1) = m_vs s \<and>
      filter (\<lambda>q. q < next_object s) (m_ps s1) = m_ps s) \<and>
    (\<forall>k x. k \<le> length (m_items s) \<and> items = take k (m_items s) @ x # drop k (m_items s) \<longrightarrow>
      (\<exists>s'. m_cache env items now s = Some s' \<and> cache_item env k x s = Some s' \<and>
        m_items s' = items \<and>
        m_vs s' = take k (m_vs s) @ next_object s # drop k (m_vs s) \<and>
        m_ps s' = take k (m_ps s) @ Suc (next_object s) # drop k (m_ps s) \<and>
        (\<forall>q \<in> set (m_vs s @ m_ps s). objects s' q = objects s q) \<and>
        backend s' = backend s @
          [New (next_object s), New (Suc (next_object s)), Layout_Reset (Data (item_at env x)),
           Load_File (VSPath (pass_at env (Data (item_at env x)))),
           Load_File (PSPath (pass_at env (Data (item_at env x)))),
           VS_Load (next_object s), PS_Load (Suc (next_object s))]))"
proof (intro conjI allI impI)
  note below = olds_below [OF ok]
  have "set (identities env (take 0 items)) \<subseteq> set (identities env (m_items s))"
    by (simp add: identities_def)
  from cache_added_correct [OF al d this] obtain s1 where
    run: "cache_added env items 0 s = Some s1" and r: "added_from env items 0 s s1"
    by blast
  from r have old: "olds_kept s s1"
    and new: "\<And>k. k < length items \<Longrightarrow> \<not> found_in env (m_items s) (items ! k) \<Longrightarrow>
                 entry_new env s s1 (items ! k) k"
    by (simp_all add: added_from_def)
  have 1: "\<forall>k < length items. \<not> found_in env (m_items s) (items ! k) \<longrightarrow>
         k < length (m_items s1) \<and> m_items s1 ! k = items ! k \<and>
         m_vs s1 ! k \<notin> set (m_vs s @ m_ps s) \<and> m_ps s1 ! k \<notin> set (m_vs s @ m_ps s) \<and>
         (\<exists>v p. objects s1 (m_vs s1 ! k) = Some v \<and> vs_loaded env (item_at env (items ! k)) v \<and>
                objects s1 (m_ps s1 ! k) = Some p \<and> ps_loaded env (item_at env (items ! k)) p)"
  proof (intro allI impI)
    fix k assume "k < length items" "\<not> found_in env (m_items s) (items ! k)"
    then have e: "entry_new env s s1 (items ! k) k" by (rule new)
    then have "next_object s \<le> m_vs s1 ! k" "next_object s \<le> m_ps s1 ! k"
      by (simp_all add: entry_new_def)
    then have "m_vs s1 ! k \<notin> set (m_vs s @ m_ps s)" "m_ps s1 ! k \<notin> set (m_vs s @ m_ps s)"
      using below(3) by (metis not_le)+
    with e show "k < length (m_items s1) \<and> m_items s1 ! k = items ! k \<and>
         m_vs s1 ! k \<notin> set (m_vs s @ m_ps s) \<and> m_ps s1 ! k \<notin> set (m_vs s @ m_ps s) \<and>
         (\<exists>v p. objects s1 (m_vs s1 ! k) = Some v \<and> vs_loaded env (item_at env (items ! k)) v \<and>
                objects s1 (m_ps s1 ! k) = Some p \<and> ps_loaded env (item_at env (items ! k)) p)"
      unfolding entry_new_def by blast
  qed
  have 2: "\<forall>q \<in> set (m_vs s @ m_ps s). objects s1 q = objects s q"
    using old below(3) unfolding olds_kept_def by blast
  have "filter (\<lambda>q. q < next_object s) (m_vs s1) = filter (\<lambda>q. q < next_object s) (m_vs s)"
    "filter (\<lambda>q. q < next_object s) (m_ps s1) = filter (\<lambda>q. q < next_object s) (m_ps s)"
    using old unfolding olds_kept_def by blast+
  then have 3: "filter (\<lambda>q. q < next_object s) (m_vs s1) = m_vs s"
    "filter (\<lambda>q. q < next_object s) (m_ps s1) = m_ps s"
    by (simp_all only: below(1,2))
  from run 1 2 3
  show "\<exists>s1. cache_added env items 0 s = Some s1 \<and>
      (\<forall>k < length items. \<not> found_in env (m_items s) (items ! k) \<longrightarrow>
         k < length (m_items s1) \<and> m_items s1 ! k = items ! k \<and>
         m_vs s1 ! k \<notin> set (m_vs s @ m_ps s) \<and> m_ps s1 ! k \<notin> set (m_vs s @ m_ps s) \<and>
         (\<exists>v p. objects s1 (m_vs s1 ! k) = Some v \<and> vs_loaded env (item_at env (items ! k)) v \<and>
                objects s1 (m_ps s1 ! k) = Some p \<and> ps_loaded env (item_at env (items ! k)) p)) \<and>
      (\<forall>q \<in> set (m_vs s @ m_ps s). objects s1 q = objects s q) \<and>
      filter (\<lambda>q. q < next_object s) (m_vs s1) = m_vs s \<and>
      filter (\<lambda>q. q < next_object s) (m_ps s1) = m_ps s"
    by blast
next
  fix k x
  assume a: "k \<le> length (m_items s) \<and> items = take k (m_items s) @ x # drop k (m_items s)"
  note below = olds_below [OF ok]
  from a have k: "k \<le> length (m_items s)"
    and items: "items = take k (m_items s) @ x # drop k (m_items s)"
    by simp_all
  note si = single_insertion [OF al d k items]
  from si(2) obtain s' where s': "cache_item env k x s = Some s'" and it: "m_items s' = items"
    by blast
  note res = cache_item_result [OF s']
  have "\<forall>q \<in> set (m_vs s @ m_ps s). objects s' q = objects s q"
    using res(8) below(3) by blast
  with si(1) [of now] s' it res(5) res(6) cache_item_backend [OF s']
  show "\<exists>s'. m_cache env items now s = Some s' \<and> cache_item env k x s = Some s' \<and>
        m_items s' = items \<and>
        m_vs s' = take k (m_vs s) @ next_object s # drop k (m_vs s) \<and>
        m_ps s' = take k (m_ps s) @ Suc (next_object s) # drop k (m_ps s) \<and>
        (\<forall>q \<in> set (m_vs s @ m_ps s). objects s' q = objects s q) \<and>
        backend s' = backend s @
          [New (next_object s), New (Suc (next_object s)), Layout_Reset (Data (item_at env x)),
           Load_File (VSPath (pass_at env (Data (item_at env x)))),
           Load_File (PSPath (pass_at env (Data (item_at env x)))),
           VS_Load (next_object s), PS_Load (Suc (next_object s))]"
    by simp
qed

theorem cache_added_inserts_witness:
  "cache_aligned (example_engine [2, 4]) \<and> objects_ok (example_engine [2, 4]) \<and>
   distinct (identities example_env [2, 3, 4]) \<and>
   \<not> found_in example_env (m_items (example_engine [2, 4])) ([2, 3, 4] ! 1) \<and>
   (\<exists>s1. cache_added example_env [2, 3, 4] 0 (example_engine [2, 4]) = Some s1 \<and>
         m_items s1 ! 1 = 3 \<and> m_vs s1 ! 1 \<notin> {0, 2, 1, 3} \<and>
         filter (\<lambda>q. q < 4) (m_vs s1) = [0, 2] \<and> filter (\<lambda>q. q < 4) (m_ps s1) = [1, 3]) \<and>
   (\<exists>s'. m_cache example_env [2, 3, 4] 0 (example_engine [2, 4]) = Some s' \<and>
         m_items s' = [2, 3, 4] \<and> m_vs s' = [0, 4, 2] \<and> m_ps s' = [1, 5, 3] \<and>
         backend s' = [New 4, New 5, Layout_Reset 13, Load_File ''vs.hlsl'', Load_File ''ps.hlsl'',
                       VS_Load 4, PS_Load 5])"
proof -
  let ?s = "example_engine [2, 4]"
  have al: "cache_aligned ?s"
    by (simp add: cache_aligned_def example_engine_def)
  have ok: "objects_ok ?s"
    by (simp add: objects_ok_def example_engine_def upt_conv_Cons)
  have d: "distinct (identities example_env [2, 3, 4])"
    by (simp add: identities_def example_env_def)
  have v: "m_items ?s = [2, 4]" "m_vs ?s = [0, 2]" "m_ps ?s = [1, 3]" "next_object ?s = 4"
    "backend ?s = []"
    by (simp_all add: example_engine_def upt_conv_Cons)
  have nf: "\<not> found_in example_env (m_items ?s) ([2, 3, 4] ! 1)"
    by (simp add: v example_env_def)
  have shape: "(1::nat) \<le> length (m_items ?s) \<and>
               [2, 3, 4] = take 1 (m_items ?s) @ 3 # drop 1 (m_items ?s)"
    by (simp add: v)
  note inst = cache_added_inserts [OF al ok d, where now = 0]
  from inst [THEN conjunct1] obtain s1 where
    run: "cache_added example_env [2, 3, 4] 0 ?s = Some s1"
    and new: "\<forall>k < length [2::nat, 3, 4]. \<not> found_in example_env (m_items ?s) ([2, 3, 4] ! k) \<longrightarrow>
         k < length (m_items s1) \<and> m_items s1 ! k = [2, 3, 4] ! k \<and>
         m_vs s1 ! k \<notin> set (m_vs ?s @ m_ps ?s) \<and> m_ps s1 ! k \<notin> set (m_vs ?s @ m_ps ?s) \<and>
         (\<exists>v p. objects s1 (m_vs s1 ! k) = Some v \<and> vs_loaded example_env (item_at example_env ([2, 3, 4] ! k)) v \<and>
                objects s1 (m_ps s1 ! k) = Some p \<and> ps_loaded example_env (item_at example_env ([2, 3, 4] ! k)) p)"
    and keep: "filter (\<lambda>q. q < next_object ?s) (m_vs s1) = m_vs ?s"
      "filter (\<lambda>q. q < next_object ?s) (m_ps s1) = m_ps ?s"
    by blast
  from new [rule_format, of 1] nf
  have 1: "m_items s1 ! 1 = 3" "m_vs s1 ! 1 \<notin> {0, 2, 1, 3}"
    by (simp_all add: v)
  from inst [THEN conjunct2, rule_format, OF shape] obtain s' where
    s': "m_cache example_env [2, 3, 4] 0 ?s = Some s'" "m_items s' = [2, 3, 4]"
      "m_vs s' = take 1 (m_vs ?s) @ next_object ?s # drop 1 (m_vs ?s)"
      "m_ps s' = take 1 (m_ps ?s) @ Suc (next_object ?s) # drop 1 (m_ps ?s)"
      "backend s' = backend ?s @
          [New (next_object ?s), New (Suc (next_object ?s)), Layout_Reset (Data (item_at example_env 3)),
           Load_File (VSPath (pass_at example_env (Data (item_at example_env 3)))),
           Load_File (PSPath (pass_at example_env (Data (item_at example_env 3)))),
           VS_Load (next_object ?s), PS_Load (Suc (next_object ?s))]"
    by blast
  have 2: "m_vs s' = [0, 4, 2]" "m_ps s' = [1, 5, 3]"
    "backend s' = [New 4, New 5, Layout_Reset 13, Load_File ''vs.hlsl'', Load_File ''ps.hlsl'',
                       VS_Load 4, PS_Load 5]"
    using s'(3,4,5) by (simp_all add: v example_env_def)
  show ?thesis
    using al ok d nf run 1 keep s'(1,2) 2 by (simp add: v)
qed

end
